theory Spec2Isabelle
  imports
    Complex_Main
    "HOL-Library.AList"
    "HOL-Library.Product_Lexorder"
    "HOL-Library.List_Lexorder"
begin

section \<open>Cache store: \<open>augur/common/cache_store.py\<close>, class \<open>UaModel\<close>\<close>

subsection \<open>Values, documents, errors\<close>

text \<open>
  A cache entry is a Python dict from field names to values. The values the cache store
  itself looks at are \<open>None\<close>, integers, strings and \<open>datetime\<close> objects; a
  \<open>datetime\<close> is the integer number of clock ticks since the epoch, a
  \<open>timedelta\<close> an integer number of ticks. A dict is an association list with
  distinct keys; \<open>d[k] = v\<close> is \<open>AList.update k v d\<close>.
\<close>

datatype val = VNone | VInt int | VStr string | VTime int

type_synonym doc = "(string \<times> val) list"

text \<open>
  The exceptions of the two files. \<open>save\<close> and \<open>update\<close> raise
  \<open>ValueError\<close> with a message; the message tells the "no data" error from the
  "no unique index" error.
\<close>

datatype error =
    ValueError string
  | KeyError string
  | TypeError
  | DuplicateKeyError

text \<open>
  How MongoDB reads a field for an equality filter, a unique index and a sort: a
  missing field counts as null.
\<close>

definition fld :: "doc \<Rightarrow> string \<Rightarrow> val" where
  "fld d f = (case map_of d f of None \<Rightarrow> VNone | Some v \<Rightarrow> v)"

subsection \<open>The model class and its state\<close>

text \<open>
  The overridable methods of \<open>UaModel\<close> (\<open>get_unique_key\<close>, \<open>get_ttl\<close>,
  \<open>get_unique_type\<close>, \<open>clear_before_add\<close>) return constants in every subclass;
  a model is the record of these constants.
\<close>

record ua_model =
  get_unique_key :: "string option"
  get_ttl :: "int option"
  get_unique_type :: "string option"
  clear_before_add :: bool

text \<open>
  The mutable state a model instance works on: the documents of
  \<open>self.get_collection()\<close>, in natural (insertion) order, and the staged list
  \<open>self.data\<close>. The \<open>_id\<close> field that MongoDB gives every stored document is
  left out: a stored document is identified by its position, and entries are taken not
  to carry an \<open>_id\<close> of their own.
\<close>

record store =
  collection :: "doc list"
  data :: "doc list"

text \<open>Python truthiness of an optional string, as in \<open>if self.get_unique_key():\<close>.\<close>

definition truthy_str :: "string option \<Rightarrow> bool" where
  "truthy_str s = (case s of None \<Rightarrow> False | Some k \<Rightarrow> k \<noteq> [])"

text \<open>
  \<open>__init__\<close> (lines 41-42) creates a unique index on the unique key when
  \<open>get_unique_key()\<close> is truthy; this is the field the index is on, if any.
\<close>

definition unique_index :: "ua_model \<Rightarrow> string option" where
  "unique_index m = (if truthy_str (get_unique_key m) then get_unique_key m else None)"

subsection \<open>Storage backend\<close>

text \<open>
  Modelled from the spec: the storage backend (pymongo) is an external collaborator and is
  not under src/. Section 6 of the spec names its primitives \<open>Insert\<close>,
  \<open>Upsert(filter, doc)\<close>, \<open>Find\<close>, \<open>DeleteMany\<close>, \<open>EnsureUniqueIndex\<close>.
  \<open>replace_first\<close> replaces the first document that satisfies the filter, if there is
  one.
\<close>

fun replace_first :: "(doc \<Rightarrow> bool) \<Rightarrow> doc \<Rightarrow> doc list \<Rightarrow> doc list option" where
  "replace_first P d [] = None"
| "replace_first P d (x # xs) =
     (if P x then Some (d # xs)
      else (case replace_first P d xs of None \<Rightarrow> None | Some ys \<Rightarrow> Some (x # ys)))"

text \<open>
  Modelled from the spec: \<open>EnsureUniqueIndex(field)\<close>. A collection satisfies a unique
  index on \<open>k\<close> when no two documents read the same value for \<open>k\<close>.
\<close>

definition index_ok :: "string option \<Rightarrow> doc list \<Rightarrow> bool" where
  "index_ok idx c = (case idx of None \<Rightarrow> True | Some k \<Rightarrow> distinct (map (\<lambda>x. fld x k) c))"

text \<open>
  Modelled from the spec: \<open>Upsert(filter, doc)\<close> with the equality filter
  \<open>{f: v}\<close>, as \<open>update(..., upsert=True)\<close> with a plain document and
  \<open>find_one_and_replace(..., upsert=True)\<close> do it: the first match is replaced by the
  document, and with no match the document is inserted at the end. A write that would
  break the unique index is refused with \<open>DuplicateKeyError\<close> and changes nothing.
\<close>

definition upsert :: "string option \<Rightarrow> string \<Rightarrow> val \<Rightarrow> doc \<Rightarrow> doc list \<Rightarrow> error + doc list" where
  "upsert idx f v d c =
     (let c' = (case replace_first (\<lambda>x. fld x f = v) d c of None \<Rightarrow> c @ [d] | Some r \<Rightarrow> r)
      in if index_ok idx c' then Inr c' else Inl DuplicateKeyError)"

text \<open>
  Modelled from the spec: \<open>augur.common.serializers.to_mongo\<close> is not under src/. The
  spec stores each entry as it is written (with the two injected fields), so the
  serializer is the identity on documents.
\<close>

definition to_mongo :: "doc \<Rightarrow> doc" where
  "to_mongo d = d"

subsection \<open>Staging and decorating entries\<close>

text \<open>
  The \<open>data\<close> argument of \<open>save\<close> and \<open>update\<close>: left out (\<open>None\<close>), one
  dict, or a list of dicts. \<open>if data:\<close> is false for \<open>None\<close>, the empty dict and
  the empty list.
\<close>

datatype arg = NoArg | One doc | Many "doc list"

fun truthy_arg :: "arg \<Rightarrow> bool" where
  "truthy_arg NoArg = False"
| "truthy_arg (One d) = (d \<noteq> [])"
| "truthy_arg (Many ds) = (ds \<noteq> [])"

definition clear_data :: "store \<Rightarrow> store" where
  "clear_data s = s\<lparr>data := []\<rparr>"

text \<open>
  \<open>add_data\<close> (lines 91-98): a list extends \<open>self.data\<close>, anything else is appended
  as one element. \<open>save\<close> and \<open>update\<close> call it with a truthy argument only, so the
  \<open>NoArg\<close> equation (appending \<open>None\<close>) is never reached from them; it leaves the
  staged list as it is.
\<close>

fun add_data :: "arg \<Rightarrow> store \<Rightarrow> store" where
  "add_data (Many ds) s = s\<lparr>data := data s @ ds\<rparr>"
| "add_data (One d) s = s\<lparr>data := data s @ [d]\<rparr>"
| "add_data NoArg s = s"

text \<open>
  \<open>decorate_data\<close> (lines 128-137) writes \<open>storage_time\<close> and \<open>storage_type\<close> into
  every staged entry. \<open>now\<close> is the reading of \<open>datetime.utcnow()\<close>; the clock is
  taken not to advance within one call.
\<close>

definition decorate :: "string option \<Rightarrow> int \<Rightarrow> doc \<Rightarrow> doc" where
  "decorate storage_type now d =
     AList.update ''storage_type'' (case storage_type of None \<Rightarrow> VNone | Some t \<Rightarrow> VStr t)
       (AList.update ''storage_time'' (VTime now) d)"

definition decorate_data :: "ua_model \<Rightarrow> int \<Rightarrow> store \<Rightarrow> store" where
  "decorate_data m now s = s\<lparr>data := map (decorate (get_unique_type m) now) (data s)\<rparr>"

subsection \<open>\<open>save\<close> and \<open>update\<close>\<close>

text \<open>
  The loop both methods run over the staged entries: read \<open>d[unique_key]\<close>
  (\<open>KeyError\<close> when the entry has no such field), then upsert the entry with the
  equality filter \<open>{f: d[unique_key]}\<close>. The first exception ends the loop; the
  entries written before it stay written. \<open>update\<close> filters on the unique key itself
  (line 121), \<open>save\<close> on the literal field \<open>"id"\<close> (line 166).
\<close>

fun upsert_each :: "string option \<Rightarrow> string \<Rightarrow> string \<Rightarrow> doc list \<Rightarrow> doc list \<Rightarrow> error option \<times> doc list" where
  "upsert_each idx f uk [] c = (None, c)"
| "upsert_each idx f uk (d # ds) c =
     (case map_of d uk of
        None \<Rightarrow> (Some (KeyError uk), c)
      | Some v \<Rightarrow>
          (case upsert idx f v (to_mongo d) c of
             Inl e \<Rightarrow> (Some e, c)
           | Inr c' \<Rightarrow> upsert_each idx f uk ds c'))"

text \<open>
  \<open>save\<close> (lines 139-177). The result is the exception raised, if any, and the state
  the call leaves behind. The \<open>cache_updated\<close> signal is sent after the writes and
  touches neither the collection nor \<open>self.data\<close>; it is not part of the state.
\<close>

definition save :: "ua_model \<Rightarrow> int \<Rightarrow> arg \<Rightarrow> store \<Rightarrow> error option \<times> store" where
  "save m now a s =
     (let s1 = (if truthy_arg a then add_data a (clear_data s) else s) in
      if data s1 = [] then (Some (ValueError ''No data found to save''), s1)
      else
        let s2 = decorate_data m now s1;
            s3 = (if clear_before_add m then s2\<lparr>collection := []\<rparr> else s2)
        in (case get_unique_key m of
              None \<Rightarrow> (None, s3\<lparr>collection := collection s3 @ map to_mongo (data s3)\<rparr>)
            | Some uk \<Rightarrow>
                if uk \<noteq> [] then
                  (case upsert_each (unique_index m) ''id'' uk (data s3) (collection s3) of
                     (e, c) \<Rightarrow> (e, s3\<lparr>collection := c\<rparr>))
                else (None, s3\<lparr>collection := collection s3 @ map to_mongo (data s3)\<rparr>)))"

text \<open>\<open>update\<close> (lines 100-126).\<close>

definition update :: "ua_model \<Rightarrow> int \<Rightarrow> arg \<Rightarrow> store \<Rightarrow> error option \<times> store" where
  "update m now a s =
     (case get_unique_key m of
        None \<Rightarrow>
          (Some (ValueError
             ''You cannot update a document in a collection that does not have a unique index''), s)
      | Some uk \<Rightarrow>
          let s1 = (if truthy_arg a then add_data a (clear_data s) else s) in
          if data s1 = [] then (Some (ValueError ''No data found to update''), s1)
          else
            let s2 = decorate_data m now s1 in
            (case upsert_each (unique_index m) uk uk (data s2) (collection s2) of
               (e, c) \<Rightarrow> (e, s2\<lparr>collection := c\<rparr>)))"

subsection \<open>\<open>load\<close>\<close>

text \<open>
  Modelled from the spec: the query object of section 6, a mapping from field names to a
  literal (equality) or to the range operator \<open>{$gte: value}\<close>. Field names are flat
  (no dot-paths into nested documents).
\<close>

datatype clause = Eq val | Gte val

type_synonym query = "(string \<times> clause) list"

text \<open>
  Modelled from the spec: the order in which the storage backend compares and sorts
  values (null, then numbers, then strings, then dates), as a key into a lexicographic
  order. \<open>$gte\<close> compares values of the same kind only.
\<close>

fun val_key :: "val \<Rightarrow> nat \<times> int \<times> nat list" where
  "val_key VNone = (0, 0, [])"
| "val_key (VInt i) = (1, i, [])"
| "val_key (VStr s) = (2, 0, map of_char s)"
| "val_key (VTime t) = (3, t, [])"

definition val_gte :: "val \<Rightarrow> val \<Rightarrow> bool" where
  "val_gte w v = (fst (val_key w) = fst (val_key v) \<and> val_key v \<le> val_key w)"

fun holds :: "doc \<Rightarrow> string \<times> clause \<Rightarrow> bool" where
  "holds d (f, Eq v) = (fld d f = v)"
| "holds d (f, Gte v) = (case map_of d f of None \<Rightarrow> False | Some w \<Rightarrow> val_gte w v)"

text \<open>Modelled from the spec: \<open>Find(filter)\<close>, in natural order.\<close>

definition find_docs :: "query \<Rightarrow> doc list \<Rightarrow> doc list" where
  "find_docs q c = filter (\<lambda>d. list_all (holds d) q) c"

datatype sort_dir = ASCENDING | DESCENDING

text \<open>Modelled from the spec: \<open>Find\<close> with a sort on one field.\<close>

definition cursor_sort :: "string \<Rightarrow> sort_dir \<Rightarrow> doc list \<Rightarrow> doc list" where
  "cursor_sort f dir c =
     (case dir of
        ASCENDING \<Rightarrow> sort_key (\<lambda>d. val_key (fld d f)) c
      | DESCENDING \<Rightarrow> rev (sort_key (\<lambda>d. val_key (fld d f)) c))"

text \<open>
  Python truthiness of an optional integer or \<open>timedelta\<close>: \<open>None\<close> and zero are
  false.
\<close>

definition truthy_int :: "int option \<Rightarrow> bool" where
  "truthy_int n = (case n of None \<Rightarrow> False | Some k \<Rightarrow> k \<noteq> 0)"

text \<open>Lines 185-188: the TTL a call works with.\<close>

definition ttl_used :: "ua_model \<Rightarrow> int option \<Rightarrow> int option" where
  "ttl_used m override_ttl = (if \<not> truthy_int override_ttl then get_ttl m else override_ttl)"

text \<open>
  Lines 195-203, on a query dict \<open>q\<close>: \<open>q.update({'storage_time': {"$gte": now - ttl}})\<close>
  when the TTL is truthy and \<open>q\<close> has no \<open>storage_time\<close> key, then
  \<open>q.update({'storage_type': ...})\<close> when \<open>get_unique_type()\<close> is truthy.
\<close>

definition add_ttl_clause :: "int option \<Rightarrow> int \<Rightarrow> query \<Rightarrow> query" where
  "add_ttl_clause ttl now q =
     (case ttl of
        None \<Rightarrow> q
      | Some t \<Rightarrow>
          if t \<noteq> 0 \<and> map_of q ''storage_time'' = None
          then AList.update ''storage_time'' (Gte (VTime (now - t))) q
          else q)"

definition add_type_clause :: "string option \<Rightarrow> query \<Rightarrow> query" where
  "add_type_clause ut q =
     (case ut of
        None \<Rightarrow> q
      | Some t \<Rightarrow> if t \<noteq> [] then AList.update ''storage_type'' (Eq (VStr t)) q else q)"

text \<open>
  Query dicts are mutable objects that the caller and \<open>load\<close> may share, so they live
  in a heap: a list of dicts, addressed by position. The caller passes the address of its
  dict, or nothing. \<open>query_object = {}\<close> (line 191) allocates a fresh dict at the end
  of the heap.
\<close>

type_synonym heap = "query list"

definition bind_query :: "nat option \<Rightarrow> heap \<Rightarrow> nat \<times> heap" where
  "bind_query query_object h =
     (case query_object of
        None \<Rightarrow> (length h, h @ [[]])
      | Some a \<Rightarrow> if h ! a = [] then (length h, h @ [[]]) else (a, h))"

text \<open>
  \<open>load\<close> (lines 179-238): the returned list, the model state and the heap after the
  call. \<open>cursor.limit(1)\<close> is what the source calls whenever \<open>limit\<close> is truthy.
  The \<open>cache_item_loaded\<close> signal only reads.
\<close>

definition load ::
  "ua_model \<Rightarrow> int \<Rightarrow> nat option \<Rightarrow> int option \<Rightarrow> string option \<Rightarrow> sort_dir \<Rightarrow> int option
     \<Rightarrow> store \<Rightarrow> heap \<Rightarrow> doc list \<times> store \<times> heap" where
  "load m now query_object limit order_by sort_order override_ttl s h =
     (let s0 = clear_data s;
          ttl = ttl_used m override_ttl;
          (q, h1) = bind_query query_object h;
          h2 = h1[q := add_ttl_clause ttl now (h1 ! q)];
          h3 = h2[q := add_type_clause (get_unique_type m) (h2 ! q)];
          cursor = find_docs (h3 ! q) (collection s0);
          cursor1 = (case order_by of
                       None \<Rightarrow> cursor
                     | Some f \<Rightarrow> if f \<noteq> [] then cursor_sort f sort_order cursor else cursor);
          cursor2 = (if truthy_int limit then take 1 cursor1 else cursor1);
          s1 = s0\<lparr>data := data s0 @ cursor2\<rparr>
      in (data s1, s1, h3))"

subsection \<open>Notions used to state the properties of the cache store\<close>

text \<open>The entries a call hands over in its \<open>data\<close> argument.\<close>

definition batch :: "arg \<Rightarrow> doc list" where
  "batch a = (case a of NoArg \<Rightarrow> [] | One d \<Rightarrow> [d] | Many ds \<Rightarrow> ds)"

text \<open>An address the caller passes refers to a dict of the heap.\<close>

definition valid_ref :: "nat option \<Rightarrow> heap \<Rightarrow> bool" where
  "valid_ref query_object h = (case query_object of None \<Rightarrow> True | Some a \<Rightarrow> a < length h)"

text \<open>The caller's filter: the dict at the address passed, the empty filter when none is.\<close>

definition caller_query :: "nat option \<Rightarrow> heap \<Rightarrow> query" where
  "caller_query query_object h = (case query_object of None \<Rightarrow> [] | Some a \<Rightarrow> h ! a)"

text \<open>The query \<open>load\<close> hands to \<open>find\<close>, from the caller's filter \<open>q\<close>.\<close>

definition effective_query :: "ua_model \<Rightarrow> int \<Rightarrow> int option \<Rightarrow> query \<Rightarrow> query" where
  "effective_query m now override_ttl q =
     add_type_clause (get_unique_type m) (add_ttl_clause (ttl_used m override_ttl) now q)"

subsection \<open>Notions used to reason about a run of upserts\<close>

text \<open>
  What an upsert of \<open>d\<close>, filtered on the field \<open>uk\<close> with \<open>d\<close>'s own value, does
  to the documents when the unique index lets it through.
\<close>

definition upsert_plain :: "string \<Rightarrow> doc \<Rightarrow> doc list \<Rightarrow> doc list" where
  "upsert_plain uk d c =
     (case replace_first (\<lambda>x. fld x uk = fld d uk) d c of None \<Rightarrow> c @ [d] | Some r \<Rightarrow> r)"

text \<open>
  A collection seen as the list of its key values and the lookup from a key value to the
  first document that has it.
\<close>

definition keys_of :: "string \<Rightarrow> doc list \<Rightarrow> val list" where
  "keys_of uk c = map (\<lambda>x. fld x uk) c"

definition lookup_key :: "string \<Rightarrow> doc list \<Rightarrow> (val \<rightharpoonup> doc)" where
  "lookup_key uk c = map_of (map (\<lambda>x. (fld x uk, x)) c)"

definition add_key :: "val \<Rightarrow> val list \<Rightarrow> val list" where
  "add_key k ks = (if k \<in> set ks then ks else ks @ [k])"

definition has_key :: "string \<Rightarrow> doc \<Rightarrow> bool" where
  "has_key uk d = (map_of d uk \<noteq> None)"

subsection \<open>Models of the source and of the spec's scenario\<close>

text \<open>One clock tick is a second.\<close>

definition hours :: "int \<Rightarrow> int" where
  "hours n = 3600 * n"

text \<open>\<open>UaTeamSprintData\<close> (lines 275-286), \<open>UaDashboardData\<close> (lines 241-252) and
  \<open>UaJiraSprintsData\<close> (lines 642-656).\<close>

definition UaTeamSprintData :: ua_model where
  "UaTeamSprintData =
     \<lparr>get_unique_key = Some ''sprint_id'', get_ttl = None, get_unique_type = None,
      clear_before_add = False\<rparr>"

definition UaDashboardData :: ua_model where
  "UaDashboardData =
     \<lparr>get_unique_key = None, get_ttl = Some (hours 3), get_unique_type = None,
      clear_before_add = True\<rparr>"

definition UaJiraSprintsData :: ua_model where
  "UaJiraSprintsData =
     \<lparr>get_unique_key = Some ''id'', get_ttl = Some (hours 2), get_unique_type = None,
      clear_before_add = False\<rparr>"

text \<open>
  The collection of the scenario in section 8 of the spec: \<open>sprints\<close>, keyed on
  \<open>sprint_id\<close>, TTL two hours; and a type-partitioned variant of it.
\<close>

definition sprints :: ua_model where
  "sprints =
     \<lparr>get_unique_key = Some ''sprint_id'', get_ttl = Some (hours 2), get_unique_type = None,
      clear_before_add = False\<rparr>"

definition typed_sprints :: ua_model where
  "typed_sprints = sprints\<lparr>get_unique_type := Some ''sprint''\<rparr>"

text \<open>A keyed model that clears before adding (no subclass of the source is configured so).\<close>

definition keyed_clearing :: ua_model where
  "keyed_clearing =
     \<lparr>get_unique_key = Some ''id'', get_ttl = None, get_unique_type = None,
      clear_before_add = True\<rparr>"

text \<open>An entry as \<open>save\<close> at time \<open>t\<close> leaves it in an untyped collection.\<close>

definition stored :: "int \<Rightarrow> doc \<Rightarrow> doc" where
  "stored t d = decorate None t d"

section \<open>Sprint aggregator: \<open>augur/fetchers/sprint.py\<close>\<close>

subsection \<open>Sprint snapshots\<close>

text \<open>
  The \<open>text\<close> entry of an estimate sum is what the aggregator compares with
  \<open>'null'\<close> and hands to \<open>float()\<close>. It is represented by what these two operations
  make of it: it is \<open>None\<close> (which differs from \<open>'null'\<close>, and \<open>float(None)\<close> raises
  \<open>TypeError\<close>), or it is the string \<open>'null'\<close>, or \<open>float()\<close> reads it as a number,
  or it is a string that \<open>float()\<close> rejects. Python floats are taken as real numbers:
  the rounding of float arithmetic is not modelled; the rounding of \<open>str()\<close> is (see
  \<open>py_str\<close> below).
\<close>

datatype pystr = NoneText | NullText | NumText real | OtherText

text \<open>
  A raw issue, as far as the aggregator reads it: its \<open>fields\<close> dict, if it has one,
  from custom field names to a number or \<open>None\<close>.
\<close>

record issue =
  issue_fields :: "(string \<rightharpoonup> real option) option"

text \<open>
  \<open>one_sprint['sprint']\<close>: the sprint's identity and metadata. Sprint ids are integers.
\<close>

record sprint_info =
  sprint_id :: int
  sprint_state :: string
  startDate :: "int option"
  endDate :: "int option"
  completeDate :: "int option"

text \<open>
  One element of \<open>sprint_data\<close>. \<open>one_sprint['contents']\<close> is one dict holding two
  kinds of entries, kept apart here by their type: the estimate sums (each a dict,
  represented by its \<open>text\<close> entry, \<open>None\<close> when the dict has none) and the issue
  lists. A key that is absent from \<open>contents\<close> is absent from the map.
\<close>

record snapshot =
  sprint :: sprint_info
  estimate_sums :: "string \<rightharpoonup> pystr option"
  issue_lists :: "string \<rightharpoonup> issue list"

subsection \<open>The aggregate\<close>

record stat =
  actual :: real
  running_avg :: real
  running_sum :: real

record entry =
  info :: sprint_info
  stats :: "string \<rightharpoonup> stat"

text \<open>
  \<open>aggregate_sprint_data\<close>: the dict holds the list under the string key
  \<open>"asc_order"\<close> and one entry under each (integer) sprint id.
\<close>

record aggregate =
  asc_order :: "int list"
  by_sprint :: "int \<rightharpoonup> entry"

definition point_keys :: "string list" where
  "point_keys = [''completedIssuesEstimateSum'', ''issuesNotCompletedEstimateSum'',
                 ''puntedIssuesEstimateSum'', ''pointsAddedDuringSprintSum'']"

definition issue_keys :: "string list" where
  "issue_keys = [''completedIssues'', ''issuesNotCompletedInCurrentSprint'', ''puntedIssues'',
                 ''issueKeysAddedDuringSprint'']"

subsection \<open>\<open>str()\<close> of a float\<close>

text \<open>
  The source is Python 2, where \<open>str(x)\<close> of a float writes 12 significant digits
  (the format \<open>%.12g\<close>, correctly rounded, a tie going to the even digit). The string
  is represented by the number \<open>float()\<close> reads back from it: \<open>x\<close> rounded to 12
  significant decimal digits. \<open>sig_exp x\<close> is the decimal exponent of the leading digit
  of \<open>x\<close>.
\<close>

definition round_half_even :: "real \<Rightarrow> int" where
  "round_half_even y =
     (let f = \<lfloor>y\<rfloor>
      in if y - of_int f < 1 / 2 then f
         else if 1 / 2 < y - of_int f then f + 1
         else if even f then f else f + 1)"

definition sig_exp :: "real \<Rightarrow> int" where
  "sig_exp x = \<lfloor>log 10 \<bar>x\<bar>\<rfloor>"

definition round12 :: "real \<Rightarrow> real" where
  "round12 x =
     (if x = 0 then 0
      else of_int (round_half_even (x * 10 powi (11 - sig_exp x))) * 10 powi (sig_exp x - 11))"

definition py_str :: "real \<Rightarrow> pystr" where
  "py_str x = NumText (round12 x)"

subsection \<open>\<open>_aggregate_sprint_history_data\<close>\<close>

text \<open>
  Modelled from the spec: \<open>common.deep_get\<close> is not under src/. The spec has the added
  points summed from a point-valued custom field, a null or absent field counting as
  zero; \<open>deep_get(issue, 'fields', key)\<close> is the value at that path, and \<open>None\<close> when
  a level of the path is absent.
\<close>

definition deep_get :: "issue \<Rightarrow> string \<Rightarrow> real option" where
  "deep_get i key = (case issue_fields i of None \<Rightarrow> None | Some fs \<Rightarrow> (case fs key of None \<Rightarrow> None | Some v \<Rightarrow> v))"

text \<open>\<open>float(x or 0.0)\<close>: \<open>None\<close> and zero are falsy.\<close>

definition float_or_zero :: "real option \<Rightarrow> real" where
  "float_or_zero x = (case x of None \<Rightarrow> 0 | Some r \<Rightarrow> if r = 0 then 0 else r)"

text \<open>Lines 269-272: the loop that sums the points of the issues added during the sprint.\<close>

fun added_points :: "real \<Rightarrow> issue list \<Rightarrow> real" where
  "added_points acc [] = acc"
| "added_points acc (issue_key # rest) =
     added_points (acc + float_or_zero (deep_get issue_key ''customfield_10002'')) rest"

text \<open>\<open>float(s)\<close> on the \<open>text\<close> entry.\<close>

fun float_of_text :: "pystr \<Rightarrow> error + real" where
  "float_of_text (NumText r) = Inr r"
| "float_of_text NoneText = Inl TypeError"
| "float_of_text NullText = Inl (ValueError ''could not convert string to float'')"
| "float_of_text OtherText = Inl (ValueError ''could not convert string to float'')"

text \<open>
  Lines 287-290: \<open>orig_current = one_sprint['contents'][key]['text']\<close>, then
  \<open>current = float(orig_current if orig_current != 'null' else 0)\<close>.
\<close>

definition point_current :: "(string \<rightharpoonup> pystr option) \<Rightarrow> string \<Rightarrow> error + real" where
  "point_current contents key =
     (case contents key of
        None \<Rightarrow> Inl (KeyError key)
      | Some None \<Rightarrow> Inl (KeyError ''text'')
      | Some (Some orig_current) \<Rightarrow>
          if orig_current \<noteq> NullText then float_of_text orig_current else Inr 0)"

text \<open>Line 314: \<open>current = float(len(one_sprint['contents'][key]))\<close>.\<close>

definition issue_current :: "(string \<rightharpoonup> issue list) \<Rightarrow> string \<Rightarrow> error + real" where
  "issue_current contents key =
     (case contents key of None \<Rightarrow> Inl (KeyError key) | Some l \<Rightarrow> Inr (real (length l)))"

text \<open>
  Lines 292-307 and 315-327, the same in both loops: the running sum and average for one
  key, stored under \<open>aggregate_sprint_data[_id][key]\<close>. A missing dict key is a
  \<open>KeyError\<close>.
\<close>

definition put_stat ::
  "nat \<Rightarrow> int \<Rightarrow> int \<Rightarrow> string \<Rightarrow> real \<Rightarrow> (int \<rightharpoonup> entry) \<Rightarrow> error + (int \<rightharpoonup> entry)" where
  "put_stat idx last_sprint_id this_id key current tbl =
     (case (if idx = 0 then Inr (current, current)
            else (case tbl last_sprint_id of
                    None \<Rightarrow> Inl (KeyError ''last_sprint_id'')
                  | Some l \<Rightarrow>
                      (case stats l key of
                         None \<Rightarrow> Inl (KeyError key)
                       | Some st \<Rightarrow>
                           let new_sum = running_sum st + current;
                               count = idx + 1;
                               average = new_sum / real count
                           in Inr (average, new_sum)))) of
        Inl e \<Rightarrow> Inl e
      | Inr (average, new_sum) \<Rightarrow>
          (case tbl this_id of
             None \<Rightarrow> Inl (KeyError ''_id'')
           | Some e \<Rightarrow>
               Inr (tbl(this_id \<mapsto> e\<lparr>stats := (stats e)(key \<mapsto>
                      \<lparr>actual = current, running_avg = average, running_sum = new_sum\<rparr>)\<rparr>))))"

text \<open>
  \<open>for key in point_keys\<close> and \<open>for key in issue_keys\<close>: \<open>cur\<close> computes
  \<open>current\<close> for a key; the first exception ends the loop.
\<close>

fun stat_loop ::
  "(string \<Rightarrow> error + real) \<Rightarrow> nat \<Rightarrow> int \<Rightarrow> int \<Rightarrow> string list \<Rightarrow> (int \<rightharpoonup> entry)
     \<Rightarrow> error + (int \<rightharpoonup> entry)" where
  "stat_loop cur idx last_sprint_id this_id [] tbl = Inr tbl"
| "stat_loop cur idx last_sprint_id this_id (key # keys) tbl =
     (case cur key of
        Inl e \<Rightarrow> Inl e
      | Inr current \<Rightarrow>
          (case put_stat idx last_sprint_id this_id key current tbl of
             Inl e \<Rightarrow> Inl e
           | Inr tbl' \<Rightarrow> stat_loop cur idx last_sprint_id this_id keys tbl'))"

text \<open>
  The body of the loop over the sprints (lines 253-327) for the sprint at index \<open>idx\<close>;
  \<open>last_sprint_id\<close> is the value of \<open>_id\<close> left by the previous iteration, and
  \<open>this_id\<close> stands for the new value of \<open>_id\<close>. Lines 273-276 write
  \<open>pointsAddedDuringSprintSum\<close> into the contents with \<open>"text": str(...)\<close>, which
  the point loop then reads back with \<open>float()\<close>; the \<open>"value"\<close> entry is not read.
\<close>

definition aggregate_one :: "nat \<Rightarrow> int \<Rightarrow> snapshot \<Rightarrow> aggregate \<Rightarrow> error + aggregate" where
  "aggregate_one idx last_sprint_id one_sprint agg =
     (let this_id = sprint_id (sprint one_sprint);
          order = asc_order agg @ [this_id];
          tbl = (if by_sprint agg this_id = None
                 then (by_sprint agg)(this_id \<mapsto> \<lparr>info = sprint one_sprint, stats = Map.empty\<rparr>)
                 else by_sprint agg)
      in case issue_lists one_sprint ''issueKeysAddedDuringSprint'' of
           None \<Rightarrow> Inl (KeyError ''issueKeysAddedDuringSprint'')
         | Some added \<Rightarrow>
             let added_during_sprint_points = added_points 0 added;
                 contents = (estimate_sums one_sprint)(''pointsAddedDuringSprintSum'' \<mapsto>
                               Some (py_str added_during_sprint_points))
             in (case stat_loop (point_current contents) idx last_sprint_id this_id point_keys tbl of
                   Inl e \<Rightarrow> Inl e
                 | Inr tbl1 \<Rightarrow>
                     (case stat_loop (issue_current (issue_lists one_sprint)) idx last_sprint_id this_id
                             issue_keys tbl1 of
                        Inl e \<Rightarrow> Inl e
                      | Inr tbl2 \<Rightarrow> Inr \<lparr>asc_order = order, by_sprint = tbl2\<rparr>)))"

text \<open>\<open>for idx, one_sprint in enumerate(asc_sprint_data)\<close>.\<close>

fun aggregate_loop :: "nat \<Rightarrow> int \<Rightarrow> snapshot list \<Rightarrow> aggregate \<Rightarrow> error + aggregate" where
  "aggregate_loop idx last_sprint_id [] agg = Inr agg"
| "aggregate_loop idx last_sprint_id (one_sprint # rest) agg =
     (case aggregate_one idx last_sprint_id one_sprint agg of
        Inl e \<Rightarrow> Inl e
      | Inr agg' \<Rightarrow> aggregate_loop (Suc idx) (sprint_id (sprint one_sprint)) rest agg')"

text \<open>
  \<open>_aggregate_sprint_history_data\<close> (lines 230-331): the list is reversed, \<open>_id\<close>
  starts at 0, the aggregate starts with an empty \<open>asc_order\<close>. The function also
  leaves \<open>pointsAddedDuringSprintSum\<close> in each snapshot's \<open>contents\<close>; the result here
  is the returned aggregate.
\<close>

definition aggregate_sprint_history_data :: "snapshot list \<Rightarrow> error + aggregate" where
  "aggregate_sprint_history_data sprint_data =
     aggregate_loop 0 0 (rev sprint_data) \<lparr>asc_order = [], by_sprint = Map.empty\<rparr>"


subsection \<open>The value of a tracked field, read off the snapshot\<close>


definition issue_points :: "issue \<Rightarrow> real" where
  "issue_points i =
     (case issue_fields i of
        None \<Rightarrow> 0
      | Some fs \<Rightarrow> (case fs ''customfield_10002'' of Some (Some r) \<Rightarrow> r | _ \<Rightarrow> 0))"

definition snapshot_value :: "snapshot \<Rightarrow> string \<Rightarrow> real" where
  "snapshot_value s key =
     (if key \<in> set issue_keys
      then (case issue_lists s key of None \<Rightarrow> 0 | Some l \<Rightarrow> real (length l))
      else if key = ''pointsAddedDuringSprintSum''
      then (case issue_lists s ''issueKeysAddedDuringSprint'' of
              None \<Rightarrow> 0
            | Some added \<Rightarrow> sum_list (map issue_points added))
      else (case estimate_sums s key of Some (Some (NumText r)) \<Rightarrow> r | _ \<Rightarrow> 0))"

text \<open>
  The added points reach the running sums through their \<open>str()\<close> text, so what is
  aggregated for them is their sum rounded to 12 significant digits; every other field
  is aggregated as it is.
\<close>

definition read_value :: "snapshot \<Rightarrow> string \<Rightarrow> real" where
  "read_value s key =
     (if key = ''pointsAddedDuringSprintSum'' then round12 (snapshot_value s key)
      else snapshot_value s key)"

subsection \<open>Notions used to state the properties of the aggregator\<close>

definition tracked_keys :: "string list" where
  "tracked_keys = point_keys @ issue_keys"

text \<open>
  \<open>contents\<close> as the point loop reads it: the snapshot's estimate sums with
  \<open>pointsAddedDuringSprintSum\<close> written in (lines 273-276).
\<close>

definition contents_with_added :: "snapshot \<Rightarrow> (string \<rightharpoonup> pystr option)" where
  "contents_with_added s =
     (case issue_lists s ''issueKeysAddedDuringSprint'' of
        None \<Rightarrow> estimate_sums s
      | Some added \<Rightarrow>
          (estimate_sums s)(''pointsAddedDuringSprintSum'' \<mapsto> Some (py_str (added_points 0 added))))"

text \<open>
  The point keys a snapshot supplies itself; the fourth point key is written by the
  aggregator. A snapshot is well formed when each of these has an estimate sum whose
  \<open>text\<close> is \<open>'null'\<close> or a number, and every issue list is there.
\<close>

definition input_point_keys :: "string list" where
  "input_point_keys = [''completedIssuesEstimateSum'', ''issuesNotCompletedEstimateSum'',
                       ''puntedIssuesEstimateSum'']"

fun null_or_number :: "pystr \<Rightarrow> bool" where
  "null_or_number NullText = True"
| "null_or_number (NumText r) = True"
| "null_or_number NoneText = False"
| "null_or_number OtherText = False"

definition well_formed :: "snapshot \<Rightarrow> bool" where
  "well_formed s =
     (list_all (\<lambda>key. case estimate_sums s key of
                        None \<Rightarrow> False
                      | Some None \<Rightarrow> False
                      | Some (Some t) \<Rightarrow> null_or_number t) input_point_keys \<and>
      list_all (\<lambda>key. issue_lists s key \<noteq> None) issue_keys)"

text \<open>The triple stored for a key at index \<open>idx\<close>, given the running sum before it.\<close>

definition new_stat :: "nat \<Rightarrow> real \<Rightarrow> real \<Rightarrow> stat" where
  "new_stat idx prev cur =
     (if idx = 0 then \<lparr>actual = cur, running_avg = cur, running_sum = cur\<rparr>
      else \<lparr>actual = cur, running_avg = (prev + cur) / real (idx + 1), running_sum = prev + cur\<rparr>)"

definition prev_sum :: "(int \<rightharpoonup> entry) \<Rightarrow> int \<Rightarrow> string \<Rightarrow> real" where
  "prev_sum tbl l k =
     (case tbl l of None \<Rightarrow> 0
      | Some e \<Rightarrow> (case stats e k of None \<Rightarrow> 0 | Some st \<Rightarrow> running_sum st))"

definition has_prev :: "(int \<rightharpoonup> entry) \<Rightarrow> int \<Rightarrow> string \<Rightarrow> bool" where
  "has_prev tbl l k =
     (case tbl l of None \<Rightarrow> False
      | Some e \<Rightarrow> (case stats e k of None \<Rightarrow> False | Some st \<Rightarrow> True))"

definition total :: "snapshot list \<Rightarrow> string \<Rightarrow> real" where
  "total P k = sum_list (map (\<lambda>s. read_value s k) P)"

definition ids :: "snapshot list \<Rightarrow> int list" where
  "ids P = map (\<lambda>s. sprint_id (sprint s)) P"

text \<open>
  The triple for key \<open>k\<close> at index \<open>j\<close> of the ascending list \<open>P\<close>.
\<close>

definition stat_at :: "snapshot list \<Rightarrow> nat \<Rightarrow> string \<Rightarrow> stat" where
  "stat_at P j k = new_stat j (total (take j P) k) (read_value (P ! j) k)"

text \<open>
  The aggregate is keyed by sprint id, so of several snapshots with one sprint id it
  keeps the entry of the last one; index \<open>j\<close> is such a last occurrence when no later
  snapshot of the list has its sprint id. In a list of distinct sprints every index is.
\<close>

definition last_occurrence :: "snapshot list \<Rightarrow> nat \<Rightarrow> bool" where
  "last_occurrence P j = (sprint_id (sprint (P ! j)) \<notin> set (ids (drop (Suc j) P)))"

text \<open>The loop invariant after the snapshots \<open>P\<close> have been processed.\<close>

definition agg_inv :: "snapshot list \<Rightarrow> int \<Rightarrow> aggregate \<Rightarrow> bool" where
  "agg_inv P l agg =
     (asc_order agg = ids P \<and>
      (P \<noteq> [] \<longrightarrow> l = sprint_id (sprint (last P))) \<and>
      (\<forall>j<length P. last_occurrence P j \<longrightarrow>
         (\<exists>e. by_sprint agg (sprint_id (sprint (P ! j))) = Some e \<and>
              (\<forall>k\<in>set tracked_keys. stats e k = Some (stat_at P j k)))))"


subsection \<open>Example snapshots\<close>

text \<open>
  Issues added during a sprint: one with points, one whose point field is null, one
  whose \<open>fields\<close> lack the point field, one without \<open>fields\<close>.
\<close>

definition pointed :: "real \<Rightarrow> issue" where
  "pointed p = \<lparr>issue_fields = Some [''customfield_10002'' \<mapsto> Some p]\<rparr>"

definition null_pointed :: issue where
  "null_pointed = \<lparr>issue_fields = Some [''customfield_10002'' \<mapsto> None]\<rparr>"

definition unpointed :: issue where
  "unpointed = \<lparr>issue_fields = Some Map.empty\<rparr>"

definition bare_issue :: issue where
  "bare_issue = \<lparr>issue_fields = None\<rparr>"

text \<open>
  A closed sprint with the given id, the given \<open>text\<close> of its completed and of its punted
  points, the given completed issues and the given issues added during the sprint. Its
  points not completed are \<open>'null'\<close>, its other issue lists empty.
\<close>

definition example_sprint :: "int \<Rightarrow> pystr \<Rightarrow> pystr \<Rightarrow> issue list \<Rightarrow> issue list \<Rightarrow> snapshot" where
  "example_sprint i completed punted finished added =
     \<lparr>sprint = \<lparr>sprint_id = i, sprint_state = ''CLOSED'', startDate = None, endDate = None,
                completeDate = None\<rparr>,
      estimate_sums = [''completedIssuesEstimateSum'' \<mapsto> Some completed,
                       ''issuesNotCompletedEstimateSum'' \<mapsto> Some NullText,
                       ''puntedIssuesEstimateSum'' \<mapsto> Some punted],
      issue_lists = [''completedIssues'' \<mapsto> finished, ''issuesNotCompletedInCurrentSprint'' \<mapsto> [],
                     ''puntedIssues'' \<mapsto> [],
                     ''issueKeysAddedDuringSprint'' \<mapsto> added]\<rparr>"

text \<open>The spec's sprints 3, 2, 1 with completed points 30, 20, 10.\<close>

definition sprint3 :: snapshot where
  "sprint3 = example_sprint 3 (NumText 30) NullText [bare_issue, bare_issue] [pointed 5, null_pointed]"

definition sprint2 :: snapshot where
  "sprint2 = example_sprint 2 (NumText 20) NullText [bare_issue]
               [pointed 3, null_pointed, unpointed, bare_issue]"

definition sprint1 :: snapshot where
  "sprint1 = example_sprint 1 (NumText 10) (NumText 4) [] [pointed 2]"


text \<open>A sprint whose completed points have \<open>None\<close> as their \<open>text\<close>.\<close>

definition sprint_with_none_text :: "int \<Rightarrow> snapshot" where
  "sprint_with_none_text i = example_sprint i NoneText NullText [] [bare_issue]"

text \<open>
  Two snapshots of one sprint, and a sprint whose one added issue has points with 13
  significant digits.
\<close>

definition sprint7_later :: snapshot where
  "sprint7_later = example_sprint 7 (NumText 20) NullText [] []"

definition sprint7_earlier :: snapshot where
  "sprint7_earlier = example_sprint 7 (NumText 10) NullText [] []"

definition sprint_with_fraction :: snapshot where
  "sprint_with_fraction =
     example_sprint 9 NullText NullText [] [pointed (1234567890123 / 10 ^ 13)]"

section \<open>Properties of the cache store\<close>

subsection \<open>Unfolding the definitions on concrete inputs\<close>

lemmas store_defs = save_def update_def clear_data_def decorate_data_def decorate_def upsert_def
  unique_index_def truthy_str_def index_ok_def fld_def to_mongo_def

lemmas load_defs = load_def Let_def bind_query_def ttl_used_def truthy_int_def add_ttl_clause_def
  add_type_clause_def find_docs_def val_gte_def cursor_sort_def clear_data_def fld_def

lemmas model_defs = UaTeamSprintData_def UaDashboardData_def UaJiraSprintsData_def sprints_def
  typed_sprints_def keyed_clearing_def hours_def stored_def

subsection \<open>The empty batch\<close>

text \<open>
  Claim C6, as the code has it. \<open>save\<close> and \<open>update\<close> fall back on the staged list
  \<open>self.data\<close> when the \<open>data\<close> argument is falsy, so the empty batch fails only
  when nothing is staged: then \<open>save\<close> raises the "no data" \<open>ValueError\<close>, and so
  does \<open>update\<close> on a model with a unique key (without one it raises the "no unique
  index" \<open>ValueError\<close> first); the collection and the staged list are unchanged.
\<close>

theorem empty_batch_fails:
  "data s = [] \<Longrightarrow> \<not> truthy_arg a \<Longrightarrow>
     save m now a s = (Some (ValueError ''No data found to save''), s) \<and>
     update m now a s =
       (Some (ValueError (if get_unique_key m = None
          then ''You cannot update a document in a collection that does not have a unique index''
          else ''No data found to update'')), s)"
  by (auto simp: save_def update_def split: option.splits)

text \<open>
  C6 at a concrete input: the spec's \<open>sprints\<close> collection holding one entry, nothing
  staged, called with the empty list.
\<close>

theorem empty_batch_witness:
  "save sprints 9 (Many []) \<lparr>collection = [stored 0 [(''sprint_id'', VInt 7)]], data = []\<rparr>
     = (Some (ValueError ''No data found to save''),
        \<lparr>collection = [stored 0 [(''sprint_id'', VInt 7)]], data = []\<rparr>) \<and>
   update sprints 9 (Many []) \<lparr>collection = [stored 0 [(''sprint_id'', VInt 7)]], data = []\<rparr>
     = (Some (ValueError ''No data found to update''),
        \<lparr>collection = [stored 0 [(''sprint_id'', VInt 7)]], data = []\<rparr>)"
proof -
  have a: "data \<lparr>collection = [stored 0 [(''sprint_id'', VInt 7)]], data = []\<rparr> = []" by simp
  have b: "\<not> truthy_arg (Many [])" by simp
  have c: "get_unique_key sprints \<noteq> None" by (simp add: sprints_def)
  show ?thesis using empty_batch_fails[OF a b, of sprints 9] c by simp
qed

text \<open>
  C6 as stated fails: with an entry staged in \<open>self.data\<close>, \<open>save\<close> of the empty
  list raises nothing and writes the staged entry.
\<close>

theorem save_empty_batch_with_staged_data:
  "save UaDashboardData 5 (Many []) \<lparr>collection = [], data = [[(''k'', VInt 1)]]\<rparr>
   = (None, \<lparr>collection = [stored 5 [(''k'', VInt 1)]], data = [stored 5 [(''k'', VInt 1)]]\<rparr>)"
  by (simp add: store_defs model_defs)

subsection \<open>Clearing before adding\<close>

lemma set_replace_first: "replace_first P d c = Some r \<Longrightarrow> set r \<subseteq> insert d (set c)"
  by (induction c arbitrary: r) (auto split: if_splits option.splits)

lemma set_upsert: "upsert idx f v d c = Inr c' \<Longrightarrow> set c' \<subseteq> insert d (set c)"
  by (auto simp: upsert_def Let_def split: if_splits option.splits dest: set_replace_first)

lemma set_upsert_each: "set (snd (upsert_each idx f uk ds c)) \<subseteq> set c \<union> set ds"
proof (induction ds arbitrary: c)
  case Nil
  then show ?case by simp
next
  case (Cons d ds)
  show ?case
  proof (cases "map_of d uk")
    case None
    then show ?thesis by auto
  next
    case (Some v)
    show ?thesis
    proof (cases "upsert idx f v (to_mongo d) c")
      case (Inl e)
      with Some show ?thesis by auto
    next
      case (Inr c')
      from set_upsert[OF Inr] have "set c' \<subseteq> insert d (set c)" by (simp add: to_mongo_def)
      moreover have "set (snd (upsert_each idx f uk ds c')) \<subseteq> set c' \<union> set ds" by (rule Cons.IH)
      ultimately show ?thesis using Some Inr by auto
    qed
  qed
qed

text \<open>
  Claim C5, as the code has it. When \<open>clear_before_add\<close> holds and the batch is truthy
  (so the call gets past the "no data" check), the collection afterwards holds only
  decorated entries of this batch, whatever it held before; and when the model has no
  (truthy) unique key the call succeeds and the collection is exactly the decorated
  batch, in order.
\<close>

theorem save_clear_before_add:
  assumes "clear_before_add m" "truthy_arg a"
  shows "set (collection (snd (save m now a s))) \<subseteq> set (map (decorate (get_unique_type m) now) (batch a)) \<and>
         (\<not> truthy_str (get_unique_key m) \<longrightarrow>
            save m now a s = (None, \<lparr>collection = map (decorate (get_unique_type m) now) (batch a),
                                     data = map (decorate (get_unique_type m) now) (batch a)\<rparr>))"
proof -
  have d: "data (add_data a (clear_data s)) = batch a"
    by (cases a) (simp_all add: batch_def clear_data_def)
  have ne: "batch a \<noteq> []" using assms(2) by (cases a) (simp_all add: batch_def)
  have c: "collection (add_data a (clear_data s)) = collection s"
    by (cases a) (simp_all add: clear_data_def)
  show ?thesis
    using assms d ne set_upsert_each[of "unique_index m" "''id''" "the (get_unique_key m)" "map (decorate (get_unique_type m) now) (batch a)" "[]"]
    by (auto simp: save_def Let_def decorate_data_def to_mongo_def truthy_str_def split: option.splits prod.splits)
qed

text \<open>
  C5 at a concrete input: \<open>UaDashboardData\<close> holding one old entry, saved with a batch
  of two.
\<close>

theorem save_clear_witness:
  "save UaDashboardData 9 (Many [[(''k'', VInt 1)], [(''k'', VInt 2)]])
        \<lparr>collection = [stored 0 [(''k'', VInt 0)]], data = []\<rparr>
     = (None, \<lparr>collection = [stored 9 [(''k'', VInt 1)], stored 9 [(''k'', VInt 2)]],
               data = [stored 9 [(''k'', VInt 1)], stored 9 [(''k'', VInt 2)]]\<rparr>)"
proof -
  have a: "clear_before_add UaDashboardData" by (simp add: UaDashboardData_def)
  have b: "truthy_arg (Many [[(''k'', VInt 1)], [(''k'', VInt 2)]])" by simp
  have c: "\<not> truthy_str (get_unique_key UaDashboardData)" by (simp add: UaDashboardData_def truthy_str_def)
  have d: "get_unique_type UaDashboardData = None" by (simp add: UaDashboardData_def)
  from save_clear_before_add[OF a b, of 9 "\<lparr>collection = [stored 0 [(''k'', VInt 0)]], data = []\<rparr>"] c
  show ?thesis by (simp add: d batch_def stored_def)
qed

text \<open>
  C5 as stated fails in two ways. The "no data" check (line 146) comes before the clearing
  (line 151): a \<open>save\<close> of the empty batch raises and leaves the old entry in place.
  And on a keyed model that clears, two batch entries with one key are upserted into one
  document, so the collection is not the batch.
\<close>

theorem save_clear_counterexample:
  "save UaDashboardData 9 (Many []) \<lparr>collection = [stored 0 [(''k'', VInt 1)]], data = []\<rparr>
     = (Some (ValueError ''No data found to save''),
        \<lparr>collection = [stored 0 [(''k'', VInt 1)]], data = []\<rparr>) \<and>
   save keyed_clearing 9 (Many [[(''id'', VInt 1), (''a'', VInt 1)], [(''id'', VInt 1), (''a'', VInt 2)]])
        \<lparr>collection = [stored 0 [(''id'', VInt 5)]], data = []\<rparr>
     = (None,
        \<lparr>collection = [stored 9 [(''id'', VInt 1), (''a'', VInt 2)]],
         data = [stored 9 [(''id'', VInt 1), (''a'', VInt 1)], stored 9 [(''id'', VInt 1), (''a'', VInt 2)]]\<rparr>)"
  by (simp add: store_defs model_defs)

subsection \<open>The upsert filter and the unique index\<close>

text \<open>
  Claim C1 on the code. \<open>save\<close> upserts with the filter \<open>{"id": d[unique_key]}\<close>
  (line 166), \<open>update\<close> with \<open>{unique_key: d[unique_key]}\<close> (line 121). On
  \<open>UaTeamSprintData\<close>, keyed on \<open>sprint_id\<close>, a \<open>save\<close> whose \<open>sprint_id\<close>
  collides with a stored entry matches nothing, tries to insert, and is refused by the
  unique index: the stored entry is not replaced. \<open>update\<close> at the same input replaces
  it.
\<close>

theorem save_collision_not_replaced:
  "save UaTeamSprintData 1 (Many [[(''sprint_id'', VInt 7), (''points'', VInt 9)]])
        \<lparr>collection = [stored 0 [(''sprint_id'', VInt 7), (''points'', VInt 5)]], data = []\<rparr>
     = (Some DuplicateKeyError,
        \<lparr>collection = [stored 0 [(''sprint_id'', VInt 7), (''points'', VInt 5)]],
         data = [stored 1 [(''sprint_id'', VInt 7), (''points'', VInt 9)]]\<rparr>) \<and>
   update UaTeamSprintData 1 (Many [[(''sprint_id'', VInt 7), (''points'', VInt 9)]])
        \<lparr>collection = [stored 0 [(''sprint_id'', VInt 7), (''points'', VInt 5)]], data = []\<rparr>
     = (None,
        \<lparr>collection = [stored 1 [(''sprint_id'', VInt 7), (''points'', VInt 9)]],
         data = [stored 1 [(''sprint_id'', VInt 7), (''points'', VInt 9)]]\<rparr>)"
  by (simp add: store_defs model_defs)

text \<open>
  Claim C7 on the code. On \<open>UaTeamSprintData\<close> (\<open>clear_before_add\<close> is false
  already) \<open>update\<close> and \<open>save\<close> leave different collections: the batch entry has
  a new \<open>sprint_id\<close>, so \<open>update\<close> inserts it; its \<open>sprint_id\<close> equals the
  \<open>id\<close> of a stored entry, so \<open>save\<close> overwrites that entry.
\<close>

theorem update_differs_from_save:
  "update UaTeamSprintData 1 (Many [[(''sprint_id'', VInt 3), (''id'', VInt 9)]])
        \<lparr>collection = [stored 0 [(''sprint_id'', VInt 1), (''id'', VInt 3)]], data = []\<rparr>
     = (None,
        \<lparr>collection = [stored 0 [(''sprint_id'', VInt 1), (''id'', VInt 3)],
                       stored 1 [(''sprint_id'', VInt 3), (''id'', VInt 9)]],
         data = [stored 1 [(''sprint_id'', VInt 3), (''id'', VInt 9)]]\<rparr>) \<and>
   save UaTeamSprintData 1 (Many [[(''sprint_id'', VInt 3), (''id'', VInt 9)]])
        \<lparr>collection = [stored 0 [(''sprint_id'', VInt 1), (''id'', VInt 3)]], data = []\<rparr>
     = (None,
        \<lparr>collection = [stored 1 [(''sprint_id'', VInt 3), (''id'', VInt 9)]],
         data = [stored 1 [(''sprint_id'', VInt 3), (''id'', VInt 9)]]\<rparr>)"
  by (simp add: store_defs model_defs)

text \<open>
  When the unique key is the field \<open>id\<close> itself, the filter of \<open>save\<close> is the
  filter of \<open>update\<close>, and the two calls agree on a truthy batch.
\<close>

lemma save_is_update_when_key_is_id:
  assumes "get_unique_key m = Some ''id''" and "\<not> clear_before_add m" and "truthy_arg a"
  shows "save m now a s = update m now a s"
proof -
  have ne: "data (add_data a (clear_data s)) \<noteq> []"
    using assms(3) by (cases a) (simp_all add: clear_data_def)
  show ?thesis using assms ne by (simp add: save_def update_def Let_def)
qed

lemma upsert_each_index:
  "index_ok idx c \<Longrightarrow> index_ok idx (snd (upsert_each idx f uk D c))"
proof (induction D arbitrary: c)
  case Nil
  then show ?case by simp
next
  case (Cons d D)
  show ?case
  proof (cases "map_of d uk")
    case None
    then show ?thesis using Cons.prems by simp
  next
    case (Some v)
    show ?thesis
    proof (cases "upsert idx f v (to_mongo d) c")
      case (Inl e)
      then show ?thesis using Some Cons.prems by simp
    next
      case (Inr c')
      then have "index_ok idx c'" by (auto simp: upsert_def Let_def split: if_splits)
      then show ?thesis using Some Inr Cons.IH by simp
    qed
  qed
qed

lemma upsert_each_index_pair:
  "upsert_each idx f uk D c = (e, c') \<Longrightarrow> index_ok idx c \<Longrightarrow> index_ok idx c'"
  using upsert_each_index[of idx c f uk D] by simp

text \<open>
  The unique index is an invariant of both write paths: whatever \<open>update\<close> and
  \<open>save\<close> do, and whether they raise or not, no two stored documents share a value
  of the unique key afterwards.
\<close>

lemma update_keeps_index:
  assumes "index_ok (unique_index m) (collection s)"
  shows "index_ok (unique_index m) (collection (snd (update m now a s)))"
proof (cases "get_unique_key m")
  case None
  then show ?thesis using assms by (simp add: update_def)
next
  case (Some uk)
  have c: "collection (add_data a (clear_data s)) = collection s"
    by (cases a) (simp_all add: clear_data_def)
  show ?thesis
  proof (cases "truthy_arg a")
    case True
    then show ?thesis using Some assms c
      by (auto simp: update_def Let_def decorate_data_def split: prod.splits
          dest: upsert_each_index_pair)
  next
    case False
    then show ?thesis using Some assms
      by (auto simp: update_def Let_def decorate_data_def split: prod.splits
          dest: upsert_each_index_pair)
  qed
qed

lemma save_keeps_index:
  assumes "index_ok (unique_index m) (collection s)"
  shows "index_ok (unique_index m) (collection (snd (save m now a s)))"
proof (cases "truthy_str (get_unique_key m)")
  case False
  then have "unique_index m = None" by (simp add: unique_index_def)
  then show ?thesis by (simp add: index_ok_def)
next
  case True
  then obtain uk where uk: "get_unique_key m = Some uk" "uk \<noteq> []"
    by (auto simp: truthy_str_def split: option.splits)
  have c: "collection (add_data a (clear_data s)) = collection s"
    by (cases a) (simp_all add: clear_data_def)
  have e: "index_ok (unique_index m) []" by (simp add: index_ok_def split: option.splits)
  show ?thesis
  proof (cases "truthy_arg a")
    case True
    then show ?thesis using uk assms c e
      by (auto simp: save_def Let_def decorate_data_def split: prod.splits
          dest: upsert_each_index_pair)
  next
    case False
    then show ?thesis using uk assms e
      by (auto simp: save_def Let_def decorate_data_def split: prod.splits
          dest: upsert_each_index_pair)
  qed
qed

subsection \<open>Writing a batch twice\<close>

lemma keys_upsert_plain: "keys_of uk (upsert_plain uk d c) = add_key (fld d uk) (keys_of uk c)"
proof -
  have "keys_of uk (case replace_first (\<lambda>x. fld x uk = k) d c of None \<Rightarrow> c @ [d] | Some r \<Rightarrow> r)
          = add_key k (keys_of uk c)" if "fld d uk = k" for k
    using that
    by (induction c) (auto simp: keys_of_def add_key_def split: option.splits)
  then show ?thesis by (simp add: upsert_plain_def)
qed

lemma lookup_upsert_plain:
  "lookup_key uk (upsert_plain uk d c) = (lookup_key uk c)(fld d uk \<mapsto> d)"
proof -
  have "lookup_key uk (case replace_first (\<lambda>x. fld x uk = k) d c of None \<Rightarrow> c @ [d] | Some r \<Rightarrow> r)
          = (lookup_key uk c)(k \<mapsto> d)" if "fld d uk = k" for k
    using that
    by (induction c) (auto simp: lookup_key_def fun_eq_iff split: option.splits)
  then show ?thesis by (simp add: upsert_plain_def)
qed

lemma rebuild:
  "distinct (keys_of uk a) \<Longrightarrow> map (\<lambda>k. the (lookup_key uk a k)) (keys_of uk a) = a"
proof (induction a)
  case Nil
  then show ?case by (simp add: keys_of_def)
next
  case (Cons x a)
  then have d: "distinct (keys_of uk a)" and n: "fld x uk \<notin> set (keys_of uk a)"
    by (simp_all add: keys_of_def)
  have e: "map (\<lambda>k. the (lookup_key uk (x # a) k)) (keys_of uk a)
          = map (\<lambda>k. the (lookup_key uk a k)) (keys_of uk a)"
    using n by (intro map_cong) (auto simp: lookup_key_def)
  have k: "keys_of uk (x # a) = fld x uk # keys_of uk a" by (simp add: keys_of_def)
  have h: "the (lookup_key uk (x # a) (fld x uk)) = x" by (simp add: lookup_key_def)
  show ?case unfolding k using e h Cons.IH[OF d] by simp
qed

lemma same_keys_lookup:
  assumes "distinct (keys_of uk a)" and "keys_of uk a = keys_of uk b"
    and "lookup_key uk a = lookup_key uk b"
  shows "a = b"
proof -
  have "a = map (\<lambda>k. the (lookup_key uk a k)) (keys_of uk a)"
    using rebuild[OF assms(1)] by simp
  also have "\<dots> = map (\<lambda>k. the (lookup_key uk b k)) (keys_of uk b)"
    using assms(2,3) by simp
  also have "\<dots> = b" using rebuild[of uk b] assms(1,2) by simp
  finally show ?thesis .
qed

lemma distinct_add_key: "distinct ks \<Longrightarrow> distinct (add_key k ks)"
  by (simp add: add_key_def)

lemma fold_keys:
  "keys_of uk (fold (upsert_plain uk) D c) = fold add_key (map (\<lambda>d. fld d uk) D) (keys_of uk c)"
  by (induction D arbitrary: c) (simp_all add: keys_upsert_plain)

lemma fold_lookup:
  "lookup_key uk (fold (upsert_plain uk) D c)
     = fold (\<lambda>d m. m(fld d uk \<mapsto> d)) D (lookup_key uk c)"
  by (induction D arbitrary: c) (simp_all add: lookup_upsert_plain)

lemma fold_add_key_distinct: "distinct ks \<Longrightarrow> distinct (fold add_key kd ks)"
  by (induction kd arbitrary: ks) (simp_all add: distinct_add_key)

lemma fold_add_key_absorb: "set kd \<subseteq> set ks \<Longrightarrow> fold add_key kd ks = ks"
  by (induction kd arbitrary: ks) (simp_all add: add_key_def)

lemma fold_add_key_contains: "set kd \<union> set ks \<subseteq> set (fold add_key kd ks)"
proof (induction kd arbitrary: ks)
  case Nil
  then show ?case by simp
next
  case (Cons k kd)
  have "set kd \<union> set (add_key k ks) \<subseteq> set (fold add_key kd (add_key k ks))" by (rule Cons.IH)
  moreover have "insert k (set ks) \<subseteq> set (add_key k ks)" by (auto simp: add_key_def)
  ultimately show ?case by auto
qed

lemma fold_add_key_twice: "fold add_key kd (fold add_key kd ks) = fold add_key kd ks"
  using fold_add_key_contains[of kd ks] by (intro fold_add_key_absorb) simp

lemma fold_upd_add:
  "fold (\<lambda>d m. m(f d \<mapsto> d)) D m = m ++ fold (\<lambda>d m. m(f d \<mapsto> d)) D Map.empty"
proof -
  define upd where "upd = (\<lambda>d m. m(f d \<mapsto> d))"
  have u: "upd d m = m ++ [f d \<mapsto> d]" for d m by (simp add: upd_def)
  have r: "fold upd D m = m ++ fold upd D Map.empty" for m
  proof (induction D arbitrary: m)
    case Nil
    then show ?case by simp
  next
    case (Cons d D)
    have e0: "upd d Map.empty = [f d \<mapsto> d]" by (simp add: upd_def)
    have "fold upd (d # D) m = fold upd D (upd d m)" by simp
    also have "\<dots> = upd d m ++ fold upd D Map.empty" by (rule Cons.IH)
    also have "\<dots> = m ++ ([f d \<mapsto> d] ++ fold upd D Map.empty)"
      by (simp only: u map_add_assoc)
    also have "[f d \<mapsto> d] ++ fold upd D Map.empty = fold upd D (upd d Map.empty)"
      unfolding e0 by (rule Cons.IH[symmetric])
    also have "fold upd D (upd d Map.empty) = fold upd (d # D) Map.empty" by simp
    finally show ?case .
  qed
  show ?thesis using r[of m] unfolding upd_def .
qed

lemma fold_upd_dom: "dom (fold (\<lambda>d m. m(f d \<mapsto> d)) D m) = dom m \<union> f ` set D"
  by (induction D arbitrary: m) auto

lemma map_add_absorb: "dom a \<subseteq> dom b \<Longrightarrow> a ++ b = b"
  by (rule ext) (auto simp: map_add_def split: option.splits)

lemma fold_upd_twice:
  assumes "map f D1 = map f D2"
  shows "fold (\<lambda>d m. m(f d \<mapsto> d)) D2 (fold (\<lambda>d m. m(f d \<mapsto> d)) D1 m)
           = fold (\<lambda>d m. m(f d \<mapsto> d)) D2 m"
proof -
  let ?a = "fold (\<lambda>d m. m(f d \<mapsto> d)) D1 Map.empty"
  let ?b = "fold (\<lambda>d m. m(f d \<mapsto> d)) D2 Map.empty"
  have "f ` set D1 = f ` set D2" using assms by (metis set_map)
  then have d: "dom ?a \<subseteq> dom ?b" by (simp add: fold_upd_dom)
  have "fold (\<lambda>d m. m(f d \<mapsto> d)) D2 (fold (\<lambda>d m. m(f d \<mapsto> d)) D1 m)
          = fold (\<lambda>d m. m(f d \<mapsto> d)) D1 m ++ ?b"
    by (rule fold_upd_add)
  also have "\<dots> = (m ++ ?a) ++ ?b" by (simp only: fold_upd_add[of f D1 m])
  also have "\<dots> = m ++ (?a ++ ?b)" by (simp only: map_add_assoc)
  also have "\<dots> = m ++ ?b" by (simp only: map_add_absorb[OF d])
  also have "\<dots> = fold (\<lambda>d m. m(f d \<mapsto> d)) D2 m" by (rule fold_upd_add[symmetric])
  finally show ?thesis .
qed

lemma fold_upsert_twice:
  assumes "distinct (keys_of uk c)" and "map (\<lambda>d. fld d uk) D1 = map (\<lambda>d. fld d uk) D2"
  shows "fold (upsert_plain uk) D2 (fold (upsert_plain uk) D1 c) = fold (upsert_plain uk) D2 c"
proof (rule same_keys_lookup[of uk])
  let ?c1 = "fold (upsert_plain uk) D1 c"
  show "distinct (keys_of uk (fold (upsert_plain uk) D2 ?c1))"
    using assms(1) by (simp add: fold_keys fold_add_key_distinct)
  show "keys_of uk (fold (upsert_plain uk) D2 ?c1) = keys_of uk (fold (upsert_plain uk) D2 c)"
    using assms(2) fold_add_key_twice[of "map (\<lambda>d. fld d uk) D2" "keys_of uk c"]
    by (simp add: fold_keys)
  show "lookup_key uk (fold (upsert_plain uk) D2 ?c1) = lookup_key uk (fold (upsert_plain uk) D2 c)"
    using fold_upd_twice[OF assms(2)] by (simp add: fold_lookup)
qed

lemma index_ok_keys: "index_ok (Some uk) c \<longleftrightarrow> distinct (keys_of uk c)"
  by (simp add: index_ok_def keys_of_def)

lemma upsert_ok:
  assumes "index_ok (Some uk) c" and "map_of d uk = Some v"
  shows "upsert (Some uk) uk v (to_mongo d) c = Inr (upsert_plain uk d c) \<and>
         index_ok (Some uk) (upsert_plain uk d c)"
proof -
  have v: "fld d uk = v" using assms(2) by (simp add: fld_def)
  have i: "index_ok (Some uk) (upsert_plain uk d c)"
    using assms(1) unfolding index_ok_keys keys_upsert_plain by (rule distinct_add_key)
  have "upsert (Some uk) uk v (to_mongo d) c =
          (if index_ok (Some uk) (upsert_plain uk d c) then Inr (upsert_plain uk d c)
           else Inl DuplicateKeyError)"
    by (simp add: upsert_def upsert_plain_def to_mongo_def v Let_def)
  then show ?thesis using i by simp
qed

lemma upsert_each_fold:
  assumes "index_ok (Some uk) c"
  shows "upsert_each (Some uk) uk uk D c =
           (if list_all (has_key uk) D then None else Some (KeyError uk),
            fold (upsert_plain uk) (takeWhile (has_key uk) D) c)"
  using assms
proof (induction D arbitrary: c)
  case Nil
  then show ?case by simp
next
  case (Cons d D)
  show ?case
  proof (cases "map_of d uk")
    case None
    then show ?thesis by (simp add: has_key_def)
  next
    case (Some v)
    from upsert_ok[OF Cons.prems Some]
    have u: "upsert (Some uk) uk v (to_mongo d) c = Inr (upsert_plain uk d c)"
      and i: "index_ok (Some uk) (upsert_plain uk d c)" by simp_all
    show ?thesis using Some u Cons.IH[OF i] by (simp add: has_key_def)
  qed
qed

lemma map_of_decorate:
  "map_of (decorate ut t d) =
     (map_of d)(''storage_time'' \<mapsto> VTime t,
                ''storage_type'' \<mapsto> (case ut of None \<Rightarrow> VNone | Some x \<Rightarrow> VStr x))"
  by (simp only: decorate_def AList.update_conv')

lemma decorate_key:
  assumes "uk \<noteq> ''storage_time''"
  shows "has_key uk (decorate ut t1 d) = has_key uk (decorate ut t2 d) \<and>
         fld (decorate ut t1 d) uk = fld (decorate ut t2 d) uk"
  using assms by (simp add: has_key_def fld_def map_of_decorate)

lemma takeWhile_decorate:
  assumes "uk \<noteq> ''storage_time''"
  shows "\<exists>B'. takeWhile (has_key uk) (map (decorate ut t1) B) = map (decorate ut t1) B' \<and>
              takeWhile (has_key uk) (map (decorate ut t2) B) = map (decorate ut t2) B'"
proof -
  have "(has_key uk \<circ> decorate ut t1) = (has_key uk \<circ> decorate ut t2)"
    using decorate_key[OF assms] by (simp add: fun_eq_iff)
  then show ?thesis by (auto simp: takeWhile_map)
qed

lemma update_truthy:
  assumes "get_unique_key m = Some uk" and "truthy_arg a"
  shows "update m t a s =
           (case upsert_each (unique_index m) uk uk (map (decorate (get_unique_type m) t) (batch a))
                   (collection s) of
              (e, c) \<Rightarrow> (e, \<lparr>collection = c, data = map (decorate (get_unique_type m) t) (batch a)\<rparr>))"
proof -
  have d: "data (add_data a (clear_data s)) = batch a"
    by (cases a) (simp_all add: batch_def clear_data_def)
  have ne: "batch a \<noteq> []" using assms(2) by (cases a) (simp_all add: batch_def)
  have c: "collection (add_data a (clear_data s)) = collection s"
    by (cases a) (simp_all add: clear_data_def)
  show ?thesis
    using assms d ne c
    by (simp add: update_def Let_def decorate_data_def split: prod.splits)
qed

text \<open>
  Claim C9, as the code has it. Every call stamps \<open>storage_time\<close> anew, so a second
  call leaves the state of a single call made at its own time. For a model with a truthy
  unique key other than \<open>storage_time\<close>, a collection that satisfies the unique
  index, and a truthy batch: \<open>update\<close> at \<open>t2\<close> after \<open>update\<close> of the same
  batch at \<open>t1\<close> has the outcome and leaves the state (collection and staged list) of
  a single \<open>update\<close> at \<open>t2\<close>.
\<close>

theorem update_idempotent:
  assumes "get_unique_key m = Some uk" and "uk \<noteq> []" and "uk \<noteq> ''storage_time''"
    and "index_ok (Some uk) (collection s)" and "truthy_arg a"
  shows "update m t2 a (snd (update m t1 a s)) = update m t2 a s"
proof -
  let ?ut = "get_unique_type m"
  let ?D1 = "map (decorate ?ut t1) (batch a)"
  let ?D2 = "map (decorate ?ut t2) (batch a)"
  let ?c = "collection s"
  have ui: "unique_index m = Some uk"
    using assms(1,2) by (simp add: unique_index_def truthy_str_def)
  obtain B' where B: "takeWhile (has_key uk) ?D1 = map (decorate ?ut t1) B'"
    "takeWhile (has_key uk) ?D2 = map (decorate ?ut t2) B'"
    using takeWhile_decorate[OF assms(3)] by blast
  let ?c1 = "fold (upsert_plain uk) (map (decorate ?ut t1) B') ?c"
  have k: "map (\<lambda>d. fld d uk) (map (decorate ?ut t1) B') = map (\<lambda>d. fld d uk) (map (decorate ?ut t2) B')"
    using decorate_key[OF assms(3)] by simp
  have c1: "collection (snd (update m t1 a s)) = ?c1"
    by (simp add: update_truthy[OF assms(1,5)] ui upsert_each_fold[OF assms(4)] B(1))
  have i1: "index_ok (Some uk) ?c1"
    using assms(4) by (simp add: index_ok_keys fold_keys fold_add_key_distinct)
  have tw: "fold (upsert_plain uk) (map (decorate ?ut t2) B') ?c1
              = fold (upsert_plain uk) (map (decorate ?ut t2) B') ?c"
    using assms(4) k by (intro fold_upsert_twice) (simp_all add: index_ok_keys)
  have l: "update m t2 a (snd (update m t1 a s)) =
             (if list_all (has_key uk) ?D2 then None else Some (KeyError uk),
              \<lparr>collection = fold (upsert_plain uk) (map (decorate ?ut t2) B') ?c, data = ?D2\<rparr>)"
    by (simp add: update_truthy[OF assms(1,5), of t2] ui c1 upsert_each_fold[OF i1] B(2) tw)
  have r: "update m t2 a s =
             (if list_all (has_key uk) ?D2 then None else Some (KeyError uk),
              \<lparr>collection = fold (upsert_plain uk) (map (decorate ?ut t2) B') ?c, data = ?D2\<rparr>)"
    by (simp add: update_truthy[OF assms(1,5), of t2] ui upsert_each_fold[OF assms(4)] B(2))
  show ?thesis using l r by simp
qed

text \<open>
  C9 at a concrete input: one entry written to the empty \<open>sprints\<close> collection at
  times 1 and 2.
\<close>

theorem update_idempotent_witness:
  "update sprints 2 (Many [[(''sprint_id'', VInt 7), (''points'', VInt 5)]])
     (snd (update sprints 1 (Many [[(''sprint_id'', VInt 7), (''points'', VInt 5)]])
        \<lparr>collection = [], data = []\<rparr>))
   = (None, \<lparr>collection = [stored 2 [(''sprint_id'', VInt 7), (''points'', VInt 5)]],
             data = [stored 2 [(''sprint_id'', VInt 7), (''points'', VInt 5)]]\<rparr>)"
proof -
  have a: "get_unique_key sprints = Some ''sprint_id''" by (simp add: sprints_def)
  have b: "''sprint_id'' \<noteq> []" "''sprint_id'' \<noteq> ''storage_time''" by simp_all
  have c: "index_ok (Some ''sprint_id'') (collection \<lparr>collection = [], data = []\<rparr>)"
    by (simp add: index_ok_def)
  have d: "truthy_arg (Many [[(''sprint_id'', VInt 7), (''points'', VInt 5)]])" by simp
  have e: "update sprints 2 (Many [[(''sprint_id'', VInt 7), (''points'', VInt 5)]])
             \<lparr>collection = [], data = []\<rparr>
           = (None, \<lparr>collection = [stored 2 [(''sprint_id'', VInt 7), (''points'', VInt 5)]],
                     data = [stored 2 [(''sprint_id'', VInt 7), (''points'', VInt 5)]]\<rparr>)"
    by (simp add: store_defs model_defs)
  show ?thesis using update_idempotent[OF a b c d, of 2 1] e by simp
qed

text \<open>
  C9 as stated fails: after the second \<open>update\<close>, at time 2, the stored entry carries
  \<open>storage_time = 2\<close>; after the first alone it carries \<open>storage_time = 1\<close>.
\<close>

theorem second_write_restamps:
  "collection (snd (update sprints 2 (Many [[(''sprint_id'', VInt 7), (''points'', VInt 5)]])
     (snd (update sprints 1 (Many [[(''sprint_id'', VInt 7), (''points'', VInt 5)]])
        \<lparr>collection = [], data = []\<rparr>))))
   \<noteq> collection (snd (update sprints 1 (Many [[(''sprint_id'', VInt 7), (''points'', VInt 5)]])
        \<lparr>collection = [], data = []\<rparr>))"
  by (simp add: store_defs model_defs)

text \<open>
  The filter of \<open>save\<close> (see C1) also shows when a batch is saved twice: on
  \<open>UaTeamSprintData\<close>, starting from the empty collection, one \<open>save\<close> of a batch
  of two leaves one document; the same \<open>save\<close> run again on that state, at the same
  clock reading, inserts a second document and then raises \<open>DuplicateKeyError\<close>.
\<close>

lemma save_twice_differs_from_once:
  "save UaTeamSprintData 1 (Many [[(''id'', VInt 2), (''sprint_id'', VInt 1)], [(''id'', VInt 9), (''sprint_id'', VInt 2)]])
        \<lparr>collection = [], data = []\<rparr>
     = (None,
        \<lparr>collection = [stored 1 [(''id'', VInt 9), (''sprint_id'', VInt 2)]],
         data = [stored 1 [(''id'', VInt 2), (''sprint_id'', VInt 1)], stored 1 [(''id'', VInt 9), (''sprint_id'', VInt 2)]]\<rparr>) \<and>
   save UaTeamSprintData 1 (Many [[(''id'', VInt 2), (''sprint_id'', VInt 1)], [(''id'', VInt 9), (''sprint_id'', VInt 2)]])
        (snd (save UaTeamSprintData 1 (Many [[(''id'', VInt 2), (''sprint_id'', VInt 1)], [(''id'', VInt 9), (''sprint_id'', VInt 2)]])
        \<lparr>collection = [], data = []\<rparr>))
     = (Some DuplicateKeyError,
        \<lparr>collection = [stored 1 [(''id'', VInt 9), (''sprint_id'', VInt 2)], stored 1 [(''id'', VInt 2), (''sprint_id'', VInt 1)]],
         data = [stored 1 [(''id'', VInt 2), (''sprint_id'', VInt 1)], stored 1 [(''id'', VInt 9), (''sprint_id'', VInt 2)]]\<rparr>)"
  by (simp add: store_defs model_defs)

subsection \<open>The query that load runs\<close>

lemma heap_steps:
  assumes "q < length h1"
  shows "(h1[q := f (h1 ! q)])[q := g ((h1[q := f (h1 ! q)]) ! q)] = h1[q := g (f (h1 ! q))]"
  using assms by simp

lemma bind_query_bound:
  assumes "valid_ref query_object h" "bind_query query_object h = (q, h1)"
  shows "q < length h1 \<and> h1 ! q = caller_query query_object h"
  using assms
  by (auto simp: bind_query_def valid_ref_def caller_query_def nth_append split: option.splits if_splits)

lemma load_heap:
  assumes "valid_ref query_object h" "bind_query query_object h = (q, h1)"
  shows "snd (snd (load m now query_object limit order_by sort_order override_ttl s h)) =
           h1[q := effective_query m now override_ttl (caller_query query_object h)]"
  using bind_query_bound[OF assms] assms(2)
  by (simp add: load_def Let_def effective_query_def)

lemma load_result:
  assumes "valid_ref query_object h"
  shows "fst (load m now query_object limit order_by sort_order override_ttl s h) =
     (let cursor = find_docs (effective_query m now override_ttl (caller_query query_object h)) (collection s);
          cursor1 = (case order_by of None \<Rightarrow> cursor
                     | Some f \<Rightarrow> if f \<noteq> [] then cursor_sort f sort_order cursor else cursor)
      in if truthy_int limit then take 1 cursor1 else cursor1)"
proof -
  obtain q h1 where b: "bind_query query_object h = (q, h1)" by (cases "bind_query query_object h")
  from bind_query_bound[OF assms b] show ?thesis
    by (auto simp: load_def b Let_def effective_query_def clear_data_def split: option.splits)
qed

lemma set_cursor_sort: "set (cursor_sort f dir c) = set c"
  by (cases dir) (simp_all add: cursor_sort_def)

lemma update_mem: "(k, v) \<in> set (AList.update k v q)"
  by (induction q) auto

lemma update_keeps: "x \<in> set q \<Longrightarrow> fst x \<noteq> k \<Longrightarrow> x \<in> set (AList.update k v q)"
  by (induction q) auto

lemma update_from: "x \<in> set (AList.update k v q) \<Longrightarrow> x = (k, v) \<or> x \<in> set q"
  by (induction q) (auto split: if_splits)

lemma update_fresh_unique:
  "map_of q k = None \<Longrightarrow> x \<in> set (AList.update k v q) \<Longrightarrow> fst x = k \<Longrightarrow> x = (k, v)"
  by (induction q) (auto split: if_splits)

lemma update_other_from:
  "x \<in> set (AList.update k' v' q) \<Longrightarrow> fst x \<noteq> k' \<Longrightarrow> x \<in> set q"
  by (induction q) (auto split: if_splits)

lemma type_clause_keeps:
  "x \<in> set q \<Longrightarrow> fst x \<noteq> ''storage_type'' \<Longrightarrow> x \<in> set (add_type_clause ut q)"
  by (simp add: add_type_clause_def update_keeps split: option.splits)

lemma type_clause_from:
  "x \<in> set (add_type_clause ut q) \<Longrightarrow> fst x \<noteq> ''storage_type'' \<Longrightarrow> x \<in> set q"
  by (auto simp: add_type_clause_def split: option.splits if_splits dest: update_other_from)

lemma split_on_key:
  assumes "c \<in> set xs" "fst c = k" "\<And>x. x \<in> set xs \<Longrightarrow> fst x = k \<Longrightarrow> x = c"
  shows "list_all P xs \<longleftrightarrow> P c \<and> list_all P (AList.delete k xs)"
proof
  assume "list_all P xs"
  then show "P c \<and> list_all P (AList.delete k xs)"
    using assms(1) by (auto simp: list_all_iff AList.delete_eq)
next
  assume r: "P c \<and> list_all P (AList.delete k xs)"
  show "list_all P xs"
    unfolding list_all_iff
  proof
    fix x assume x: "x \<in> set xs"
    show "P x"
    proof (cases "fst x = k")
      case True
      then have "x = c" using x assms(3) by simp
      then show ?thesis using r by simp
    next
      case False
      then have "x \<in> set (AList.delete k xs)" using x by (auto simp: AList.delete_eq)
      then show ?thesis using r by (simp add: list_all_iff)
    qed
  qed
qed

lemma eff_query_ttl:
  assumes "ttl_used m override_ttl = Some T" "T \<noteq> 0" "map_of q ''storage_time'' = None"
  shows "list_all (holds e) (effective_query m now override_ttl q) \<longleftrightarrow>
           holds e (''storage_time'', Gte (VTime (now - T))) \<and>
           list_all (holds e) (AList.delete ''storage_time'' (effective_query m now override_ttl q))"
proof (rule split_on_key)
  let ?q1 = "AList.update ''storage_time'' (Gte (VTime (now - T))) q"
  have q1: "add_ttl_clause (ttl_used m override_ttl) now q = ?q1"
    using assms by (simp add: add_ttl_clause_def)
  show "(''storage_time'', Gte (VTime (now - T))) \<in> set (effective_query m now override_ttl q)"
    unfolding effective_query_def q1
    by (rule type_clause_keeps) (simp_all add: update_mem)
  show "fst (''storage_time'', Gte (VTime (now - T))) = ''storage_time''" by simp
  fix x assume x: "x \<in> set (effective_query m now override_ttl q)" "fst x = ''storage_time''"
  from x(1) have "x \<in> set ?q1"
    unfolding effective_query_def q1
    by (rule type_clause_from) (simp add: x(2))
  then show "x = (''storage_time'', Gte (VTime (now - T)))"
    using update_fresh_unique[OF assms(3) _ x(2)] by simp
qed

lemma load_subset:
  assumes "valid_ref query_object h"
  shows "set (fst (load m now query_object limit order_by sort_order override_ttl s h))
           \<subseteq> set (find_docs (effective_query m now override_ttl (caller_query query_object h)) (collection s))"
proof -
  let ?c = "find_docs (effective_query m now override_ttl (caller_query query_object h)) (collection s)"
  let ?c1 = "(case order_by of None \<Rightarrow> ?c
               | Some f \<Rightarrow> if f \<noteq> [] then cursor_sort f sort_order ?c else ?c)"
  have c1: "set ?c1 = set ?c"
    by (cases order_by) (simp_all add: set_cursor_sort)
  have "set (if truthy_int limit then take 1 ?c1 else ?c1) \<subseteq> set ?c1"
    using set_take_subset[of 1 ?c1] by simp
  then show ?thesis
    unfolding load_result[OF assms] Let_def c1 .
qed

lemma load_full:
  assumes "valid_ref query_object h" "\<not> truthy_int limit"
  shows "set (fst (load m now query_object limit order_by sort_order override_ttl s h))
           = set (find_docs (effective_query m now override_ttl (caller_query query_object h)) (collection s))"
proof -
  let ?c = "find_docs (effective_query m now override_ttl (caller_query query_object h)) (collection s)"
  let ?c1 = "(case order_by of None \<Rightarrow> ?c
               | Some f \<Rightarrow> if f \<noteq> [] then cursor_sort f sort_order ?c else ?c)"
  have c1: "set ?c1 = set ?c"
    by (cases order_by) (simp_all add: set_cursor_sort)
  show ?thesis
    unfolding load_result[OF assms(1)] Let_def using assms(2) c1 by simp
qed

subsection \<open>The TTL filter\<close>

text \<open>
  Claim C3, as the code has it. The TTL of the call is the override when the override is
  truthy (not \<open>None\<close>, not of zero duration) and the model's TTL otherwise; the
  \<open>storage_time\<close> clause is added only when that TTL \<open>T\<close> is truthy and the caller's
  filter has no \<open>storage_time\<close> key. Then a stored entry with
  \<open>storage_time < now - T\<close> is never in the result, and one with
  \<open>storage_time \<ge> now - T\<close> is in the result when no limit is given and the entry
  meets the other clauses of the effective query.
\<close>

theorem load_ttl_filter:
  assumes "valid_ref query_object h"
    and "map_of (caller_query query_object h) ''storage_time'' = None"
    and "ttl_used m override_ttl = Some T" and "T \<noteq> 0"
    and "e \<in> set (collection s)"
    and "map_of e ''storage_time'' = Some (VTime t)"
  shows "(t < now - T \<longrightarrow>
            e \<notin> set (fst (load m now query_object limit order_by sort_order override_ttl s h))) \<and>
         (now - T \<le> t \<and> \<not> truthy_int limit \<and>
            list_all (holds e) (AList.delete ''storage_time''
              (effective_query m now override_ttl (caller_query query_object h))) \<longrightarrow>
            e \<in> set (fst (load m now query_object limit order_by sort_order override_ttl s h)))"
proof -
  let ?q = "effective_query m now override_ttl (caller_query query_object h)"
  let ?r = "fst (load m now query_object limit order_by sort_order override_ttl s h)"
  have h: "holds e (''storage_time'', Gte (VTime (now - T))) \<longleftrightarrow> now - T \<le> t"
    using assms(6) by (auto simp: val_gte_def)
  have m: "e \<in> set (find_docs ?q (collection s)) \<longleftrightarrow>
             now - T \<le> t \<and> list_all (holds e) (AList.delete ''storage_time'' ?q)"
    using assms(5) eff_query_ttl[OF assms(3,4,2), of e now] h by (simp add: find_docs_def)
  have sub: "set ?r \<subseteq> set (find_docs ?q (collection s))"
    by (rule load_subset[OF assms(1)])
  have excl: "t < now - T \<longrightarrow> e \<notin> set ?r"
  proof
    assume "t < now - T"
    then have "e \<notin> set (find_docs ?q (collection s))" using m by simp
    then show "e \<notin> set ?r" using sub by blast
  qed
  have incl: "now - T \<le> t \<and> \<not> truthy_int limit \<and> list_all (holds e) (AList.delete ''storage_time'' ?q)
                \<longrightarrow> e \<in> set ?r"
  proof
    assume a: "now - T \<le> t \<and> \<not> truthy_int limit \<and> list_all (holds e) (AList.delete ''storage_time'' ?q)"
    then have "e \<in> set (find_docs ?q (collection s))" using m by simp
    then show "e \<in> set ?r" using load_full[OF assms(1), of limit m now order_by sort_order override_ttl s] a by simp
  qed
  show ?thesis using excl incl by (rule conjI)
qed

text \<open>
  C3 on the scenario of section 8 of the spec: an entry saved at time 0 into \<open>sprints\<close>
  (TTL two hours) is loaded at one hour, not loaded at three hours, and loaded at three
  hours with an override of four hours.
\<close>

theorem load_ttl_witness:
  "stored 0 [(''sprint_id'', VInt 7), (''points'', VInt 5)] \<in>
     set (fst (load sprints (hours 1) None None None DESCENDING None
         \<lparr>collection = [stored 0 [(''sprint_id'', VInt 7), (''points'', VInt 5)]], data = []\<rparr> [])) \<and>
   stored 0 [(''sprint_id'', VInt 7), (''points'', VInt 5)] \<notin>
     set (fst (load sprints (hours 3) None None None DESCENDING None
         \<lparr>collection = [stored 0 [(''sprint_id'', VInt 7), (''points'', VInt 5)]], data = []\<rparr> [])) \<and>
   stored 0 [(''sprint_id'', VInt 7), (''points'', VInt 5)] \<in>
     set (fst (load sprints (hours 3) None None None DESCENDING (Some (hours 4))
         \<lparr>collection = [stored 0 [(''sprint_id'', VInt 7), (''points'', VInt 5)]], data = []\<rparr> []))"
proof -
  let ?e = "stored 0 [(''sprint_id'', VInt 7), (''points'', VInt 5)]"
  let ?s = "\<lparr>collection = [?e], data = []\<rparr>"
  have v: "valid_ref None []" by (simp add: valid_ref_def)
  have q: "map_of (caller_query None []) ''storage_time'' = None" by (simp add: caller_query_def)
  have t1: "ttl_used sprints None = Some (hours 2)" by (simp add: ttl_used_def truthy_int_def sprints_def)
  have t2: "ttl_used sprints (Some (hours 4)) = Some (hours 4)"
    by (simp add: ttl_used_def truthy_int_def hours_def)
  have n2: "hours 2 \<noteq> 0" "hours 4 \<noteq> 0" by (simp_all add: hours_def)
  have e: "?e \<in> set (collection ?s)" by simp
  have st: "map_of ?e ''storage_time'' = Some (VTime 0)" by (simp add: stored_def decorate_def)
  have r1: "list_all (holds ?e) (AList.delete ''storage_time''
              (effective_query sprints (hours 1) None (caller_query None [])))"
    by (simp add: effective_query_def caller_query_def add_type_clause_def add_ttl_clause_def
        ttl_used_def truthy_int_def sprints_def hours_def AList.delete_eq)
  have r3: "list_all (holds ?e) (AList.delete ''storage_time''
              (effective_query sprints (hours 3) (Some (hours 4)) (caller_query None [])))"
    by (simp add: effective_query_def caller_query_def add_type_clause_def add_ttl_clause_def
        ttl_used_def truthy_int_def sprints_def hours_def AList.delete_eq)
  have nl: "\<not> truthy_int None" by (simp add: truthy_int_def)
  have a: "?e \<in> set (fst (load sprints (hours 1) None None None DESCENDING None ?s []))"
    using load_ttl_filter[OF v q t1 n2(1) e st, of "hours 1" None None DESCENDING] r1 nl
    by (simp add: hours_def)
  have b: "?e \<notin> set (fst (load sprints (hours 3) None None None DESCENDING None ?s []))"
    using load_ttl_filter[OF v q t1 n2(1) e st, of "hours 3" None None DESCENDING]
    by (simp add: hours_def)
  have c: "?e \<in> set (fst (load sprints (hours 3) None None None DESCENDING (Some (hours 4)) ?s []))"
    using load_ttl_filter[OF v q t2 n2(2) e st, of "hours 3" None None DESCENDING] r3 nl
    by (simp add: hours_def)
  show ?thesis using a b c by simp
qed

text \<open>
  C3 as stated fails: an override of zero duration is falsy (line 185), so the model's two
  hours are used, and an entry one hour old is returned although it is older than
  \<open>now - 0\<close>.
\<close>

theorem load_zero_override_counterexample:
  "fst (load sprints (hours 1) None None None DESCENDING (Some 0)
         \<lparr>collection = [stored 0 [(''sprint_id'', VInt 7), (''points'', VInt 5)]], data = []\<rparr> [])
     = [stored 0 [(''sprint_id'', VInt 7), (''points'', VInt 5)]]"
  by (simp add: load_defs model_defs decorate_def)

subsection \<open>Limit and order\<close>

lemma sorted_last_max:
  "sorted (map k ys) \<Longrightarrow> y \<in> set ys \<Longrightarrow> k y \<le> k (last ys)"
proof (induction ys)
  case Nil
  then show ?case by simp
next
  case (Cons x xs)
  show ?case
  proof (cases "xs = []")
    case True
    with Cons.prems show ?thesis by simp
  next
    case False
    then have l: "last xs \<in> set xs" by simp
    show ?thesis
    proof (cases "y = x")
      case True
      then show ?thesis using Cons.prems(1) False l by auto
    next
      case False
      then show ?thesis using Cons by auto
    qed
  qed
qed

lemma sort_desc_head:
  assumes "c \<noteq> []"
  shows "\<exists>e. take 1 (cursor_sort f DESCENDING c) = [e] \<and> e \<in> set c \<and>
           (\<forall>e'\<in>set c. val_key (fld e' f) \<le> val_key (fld e f))"
proof -
  let ?k = "\<lambda>d. val_key (fld d f)"
  let ?ys = "sort_key ?k c"
  have ne: "?ys \<noteq> []" using assms by (metis length_sort length_0_conv)
  have st: "set ?ys = set c" by simp
  have srt: "sorted (map ?k ?ys)" by (rule sorted_sort_key)
  have t: "take 1 (rev ?ys) = [last ?ys]" using ne by (cases "rev ?ys") (auto simp: last_rev[symmetric] simp del: last_rev)
  have "last ?ys \<in> set c" using ne st last_in_set by blast
  moreover have "\<forall>e'\<in>set c. ?k e' \<le> ?k (last ?ys)"
    using sorted_last_max[OF srt] st by blast
  ultimately show ?thesis using t by (simp add: cursor_sort_def)
qed

lemma val_key_time_le:
  "val_key (VTime t') \<le> val_key v \<Longrightarrow> \<exists>t. v = VTime t \<and> t' \<le> t"
  by (cases v) (auto simp: less_eq_prod_def)

lemma load_limit_sorted:
  assumes "valid_ref query_object h" and "limit = Some n" and "n \<noteq> 0"
  shows "length (fst (load m now query_object limit order_by sort_order override_ttl s h)) \<le> 1 \<and>
         (order_by = Some ''storage_time'' \<and> sort_order = DESCENDING \<longrightarrow>
            (find_docs (effective_query m now override_ttl (caller_query query_object h)) (collection s) = [] \<and>
               fst (load m now query_object limit order_by sort_order override_ttl s h) = []) \<or>
            (\<exists>e. fst (load m now query_object limit order_by sort_order override_ttl s h) = [e] \<and>
               e \<in> set (find_docs (effective_query m now override_ttl (caller_query query_object h)) (collection s)) \<and>
               list_all (\<lambda>e'. val_key (fld e' ''storage_time'') \<le> val_key (fld e ''storage_time''))
                 (find_docs (effective_query m now override_ttl (caller_query query_object h)) (collection s))))"
proof -
  let ?c = "find_docs (effective_query m now override_ttl (caller_query query_object h)) (collection s)"
  let ?c1 = "(case order_by of None \<Rightarrow> ?c
               | Some f \<Rightarrow> if f \<noteq> [] then cursor_sort f sort_order ?c else ?c)"
  let ?r = "fst (load m now query_object limit order_by sort_order override_ttl s h)"
  have tr: "truthy_int limit" using assms(2,3) by (simp add: truthy_int_def)
  have r: "?r = take 1 ?c1"
    unfolding load_result[OF assms(1)] Let_def using tr by simp
  have len: "length ?r \<le> 1" unfolding r by simp
  have srt: "order_by = Some ''storage_time'' \<and> sort_order = DESCENDING \<longrightarrow>
            (?c = [] \<and> ?r = []) \<or>
            (\<exists>e. ?r = [e] \<and> e \<in> set ?c \<and>
               list_all (\<lambda>e'. val_key (fld e' ''storage_time'') \<le> val_key (fld e ''storage_time'')) ?c)"
  proof
    assume a: "order_by = Some ''storage_time'' \<and> sort_order = DESCENDING"
    then have r2: "?r = take 1 (cursor_sort ''storage_time'' DESCENDING ?c)"
      unfolding r by simp
    show "(?c = [] \<and> ?r = []) \<or>
            (\<exists>e. ?r = [e] \<and> e \<in> set ?c \<and>
               list_all (\<lambda>e'. val_key (fld e' ''storage_time'') \<le> val_key (fld e ''storage_time'')) ?c)"
    proof (cases "?c = []")
      case True
      then show ?thesis unfolding r2 by (simp add: cursor_sort_def)
    next
      case False
      from sort_desc_head[OF False, of "''storage_time''"] show ?thesis
        unfolding r2 list_all_iff by simp
    qed
  qed
  show ?thesis using len srt by (rule conjI)
qed

text \<open>
  Claim C4, as the code has it. For a limit \<open>n \<ge> 1\<close> the result has at most \<open>n\<close>
  entries. With \<open>limit = 1\<close> and the order \<open>storage_time\<close> descending, the result is
  empty exactly when nothing matches the effective query (no error), and otherwise holds
  one matching entry whose \<open>storage_time\<close> is at least that of every matching entry.
\<close>

theorem load_limit:
  assumes "valid_ref query_object h" and "limit = Some n" and "1 \<le> n"
  shows "int (length (fst (load m now query_object limit order_by sort_order override_ttl s h))) \<le> n \<and>
         (n = 1 \<and> order_by = Some ''storage_time'' \<and> sort_order = DESCENDING \<longrightarrow>
            (find_docs (effective_query m now override_ttl (caller_query query_object h)) (collection s) = [] \<and>
               fst (load m now query_object limit order_by sort_order override_ttl s h) = []) \<or>
            (\<exists>e. fst (load m now query_object limit order_by sort_order override_ttl s h) = [e] \<and>
               e \<in> set (find_docs (effective_query m now override_ttl (caller_query query_object h)) (collection s)) \<and>
               (\<forall>e'\<in>set (find_docs (effective_query m now override_ttl (caller_query query_object h)) (collection s)).
                  \<forall>t'. fld e' ''storage_time'' = VTime t' \<longrightarrow>
                    (\<exists>t. fld e ''storage_time'' = VTime t \<and> t' \<le> t))))"
proof -
  let ?c = "find_docs (effective_query m now override_ttl (caller_query query_object h)) (collection s)"
  let ?r = "fst (load m now query_object limit order_by sort_order override_ttl s h)"
  have nz: "n \<noteq> 0" using assms(3) by simp
  note base = load_limit_sorted[OF assms(1,2) nz, of m now order_by sort_order override_ttl s]
  have len: "length ?r \<le> 1" using base by blast
  have cap: "int (length ?r) \<le> n" using len assms(3) by simp
  have srt: "n = 1 \<and> order_by = Some ''storage_time'' \<and> sort_order = DESCENDING \<longrightarrow>
            (?c = [] \<and> ?r = []) \<or>
            (\<exists>e. ?r = [e] \<and> e \<in> set ?c \<and>
               (\<forall>e'\<in>set ?c. \<forall>t'. fld e' ''storage_time'' = VTime t' \<longrightarrow>
                    (\<exists>t. fld e ''storage_time'' = VTime t \<and> t' \<le> t)))"
  proof
    assume a: "n = 1 \<and> order_by = Some ''storage_time'' \<and> sort_order = DESCENDING"
    with base have "(?c = [] \<and> ?r = []) \<or>
            (\<exists>e. ?r = [e] \<and> e \<in> set ?c \<and>
               list_all (\<lambda>e'. val_key (fld e' ''storage_time'') \<le> val_key (fld e ''storage_time'')) ?c)"
      by blast
    then show "(?c = [] \<and> ?r = []) \<or>
            (\<exists>e. ?r = [e] \<and> e \<in> set ?c \<and>
               (\<forall>e'\<in>set ?c. \<forall>t'. fld e' ''storage_time'' = VTime t' \<longrightarrow>
                    (\<exists>t. fld e ''storage_time'' = VTime t \<and> t' \<le> t)))"
    proof
      assume "?c = [] \<and> ?r = []"
      then show ?thesis by blast
    next
      assume "\<exists>e. ?r = [e] \<and> e \<in> set ?c \<and>
               list_all (\<lambda>e'. val_key (fld e' ''storage_time'') \<le> val_key (fld e ''storage_time'')) ?c"
      then obtain e where e: "?r = [e]" "e \<in> set ?c"
        "\<forall>e'\<in>set ?c. val_key (fld e' ''storage_time'') \<le> val_key (fld e ''storage_time'')"
        by (auto simp: list_all_iff)
      have "\<forall>e'\<in>set ?c. \<forall>t'. fld e' ''storage_time'' = VTime t' \<longrightarrow>
                    (\<exists>t. fld e ''storage_time'' = VTime t \<and> t' \<le> t)"
      proof (intro ballI allI impI)
        fix e' t' assume m: "e' \<in> set ?c" and t: "fld e' ''storage_time'' = VTime t'"
        have "val_key (VTime t') \<le> val_key (fld e ''storage_time'')" using e(3) m t by force
        then show "\<exists>t. fld e ''storage_time'' = VTime t \<and> t' \<le> t" by (rule val_key_time_le)
      qed
      then show ?thesis using e(1,2) by blast
    qed
  qed
  show ?thesis using cap srt by (rule conjI)
qed

text \<open>
  C4 at a concrete input: of two fresh entries written at times 10 and 20, \<open>limit = 1\<close>
  with \<open>storage_time\<close> descending returns the one written at 20.
\<close>

theorem load_limit_witness:
  "fst (load sprints (hours 1) None (Some 1) (Some ''storage_time'') DESCENDING None
      \<lparr>collection = [stored 10 [(''sprint_id'', VInt 1)], stored 20 [(''sprint_id'', VInt 2)]], data = []\<rparr> [])
    = [stored 20 [(''sprint_id'', VInt 2)]]"
proof -
  let ?a = "stored 10 [(''sprint_id'', VInt 1)]"
  let ?b = "stored 20 [(''sprint_id'', VInt 2)]"
  let ?s = "\<lparr>collection = [?a, ?b], data = []\<rparr>"
  let ?r = "fst (load sprints (hours 1) None (Some 1) (Some ''storage_time'') DESCENDING None ?s [])"
  have v: "valid_ref None []" by (simp add: valid_ref_def)
  have m: "find_docs (effective_query sprints (hours 1) None (caller_query None [])) (collection ?s) = [?a, ?b]"
    by (simp add: effective_query_def caller_query_def add_type_clause_def add_ttl_clause_def
        ttl_used_def truthy_int_def sprints_def hours_def find_docs_def stored_def decorate_def val_gte_def)
  have fa: "fld ?a ''storage_time'' = VTime 10" and fb: "fld ?b ''storage_time'' = VTime 20"
    by (simp_all add: stored_def decorate_def fld_def)
  from load_limit[OF v refl, of 1 sprints "hours 1" "Some ''storage_time''" DESCENDING None ?s]
  have "\<exists>e. ?r = [e] \<and> e \<in> set [?a, ?b] \<and>
          (\<forall>e'\<in>set [?a, ?b]. \<forall>t'. fld e' ''storage_time'' = VTime t' \<longrightarrow>
              (\<exists>t. fld e ''storage_time'' = VTime t \<and> t' \<le> t))"
    unfolding m by simp
  then obtain e where e: "?r = [e]" "e = ?a \<or> e = ?b"
     "\<exists>t. fld e ''storage_time'' = VTime t \<and> 20 \<le> t" using fb by auto
  from e(2,3) fa have "e = ?b" by auto
  then show ?thesis using e(1) by simp
qed

text \<open>
  C4 as stated fails: \<open>limit = 0\<close> is falsy (line 214), no limit is set, and both
  stored entries are returned.
\<close>

theorem load_limit_zero_counterexample:
  "length (fst (load UaTeamSprintData 5 None (Some 0) None DESCENDING None
      \<lparr>collection = [stored 0 [(''sprint_id'', VInt 1)], stored 1 [(''sprint_id'', VInt 2)]], data = []\<rparr> [])) = 2"
  by (simp add: load_defs model_defs decorate_def)

subsection \<open>The caller's query object\<close>

lemma load_heap_at_caller:
  assumes "query_object = Some a" and "a < length h" and "h ! a \<noteq> []"
  shows "snd (snd (load m now query_object limit order_by sort_order override_ttl s h))
           = h[a := effective_query m now override_ttl (h ! a)]"
proof -
  have v: "valid_ref query_object h" using assms by (simp add: valid_ref_def)
  have b: "bind_query query_object h = (a, h)" using assms by (simp add: bind_query_def)
  show ?thesis using load_heap[OF v b] assms(1) by (simp add: caller_query_def)
qed

lemma map_of_update_same: "map_of (AList.update k v q) k = Some v"
  by (simp add: AList.update_conv')

lemma eff_query_clauses:
  "(ttl_used m override_ttl = Some T \<and> T \<noteq> 0 \<and> map_of q ''storage_time'' = None \<longrightarrow>
      map_of (effective_query m now override_ttl q) ''storage_time'' = Some (Gte (VTime (now - T)))) \<and>
   (get_unique_type m = Some ut \<and> ut \<noteq> [] \<longrightarrow>
      map_of (effective_query m now override_ttl q) ''storage_type'' = Some (Eq (VStr ut)))"
  by (auto simp: effective_query_def add_ttl_clause_def add_type_clause_def AList.update_conv' split: option.splits)

text \<open>
  Claim C10, as the code has it. For a caller's query dict that is not empty, \<open>load\<close>
  writes into that very dict: after the call the heap differs from the one before only
  at the caller's address, where the dict is the effective query; it has the
  \<open>storage_time\<close> lower bound when a truthy TTL applies and the caller gave no
  \<open>storage_time\<close>, and the \<open>storage_type\<close> clause when the model has a truthy
  unique type.
\<close>

theorem load_mutates_query:
  assumes "query_object = Some a" and "a < length h" and "h ! a \<noteq> []"
  shows "snd (snd (load m now query_object limit order_by sort_order override_ttl s h))
           = h[a := effective_query m now override_ttl (h ! a)] \<and>
         (\<forall>T. ttl_used m override_ttl = Some T \<and> T \<noteq> 0 \<and> map_of (h ! a) ''storage_time'' = None \<longrightarrow>
            map_of (snd (snd (load m now query_object limit order_by sort_order override_ttl s h)) ! a)
              ''storage_time'' = Some (Gte (VTime (now - T)))) \<and>
         (\<forall>ut. get_unique_type m = Some ut \<and> ut \<noteq> [] \<longrightarrow>
            map_of (snd (snd (load m now query_object limit order_by sort_order override_ttl s h)) ! a)
              ''storage_type'' = Some (Eq (VStr ut)))"
proof -
  have h: "snd (snd (load m now query_object limit order_by sort_order override_ttl s h))
           = h[a := effective_query m now override_ttl (h ! a)]"
    by (rule load_heap_at_caller[OF assms])
  have n: "h[a := effective_query m now override_ttl (h ! a)] ! a = effective_query m now override_ttl (h ! a)"
    using assms(2) by simp
  show ?thesis unfolding h n using eff_query_clauses[of m override_ttl _ "h ! a" now] by blast
qed

text \<open>
  C10 at a concrete input: the caller's \<open>{'sprint_id': 7}\<close> holds both clauses after
  a \<open>load\<close> at three hours on the type-partitioned collection.
\<close>

theorem load_mutates_query_witness:
  "snd (snd (load typed_sprints (hours 3) (Some 0) None None DESCENDING None
                \<lparr>collection = [], data = []\<rparr> [[(''sprint_id'', Eq (VInt 7))]]))
     = [[(''sprint_id'', Eq (VInt 7)), (''storage_time'', Gte (VTime (hours 1))),
         (''storage_type'', Eq (VStr ''sprint''))]]"
proof -
  have a: "(0::nat) < length [[(''sprint_id'', Eq (VInt 7))]]" by simp
  have b: "[[(''sprint_id'', Eq (VInt 7))]] ! 0 \<noteq> []" by simp
  from load_mutates_query[OF refl a b, of typed_sprints "hours 3" None None DESCENDING None
         "\<lparr>collection = [], data = []\<rparr>", THEN conjunct1]
  show ?thesis
    by (simp add: effective_query_def add_type_clause_def add_ttl_clause_def ttl_used_def
        truthy_int_def model_defs)
qed

text \<open>
  C10 as stated fails: an empty dict is falsy (line 190), so \<open>load\<close> binds a fresh
  dict; the caller's dict at address 0 is still empty after the call and the clauses are
  in the fresh dict at address 1.
\<close>

theorem load_empty_query_not_mutated:
  "snd (snd (load typed_sprints (hours 1) (Some 0) None None DESCENDING None
                \<lparr>collection = [], data = []\<rparr> [[]]))
     = [[], [(''storage_time'', Gte (VTime (hours 1 - hours 2))), (''storage_type'', Eq (VStr ''sprint''))]]"
  by (simp add: load_defs model_defs)

section \<open>Properties of the sprint aggregator\<close>

subsection \<open>The tracked keys\<close>

lemma distinct_tracked: "distinct tracked_keys"
  by (simp add: tracked_keys_def point_keys_def issue_keys_def)

lemma distinct_point: "distinct point_keys"
  by (simp add: point_keys_def)

lemma distinct_issue: "distinct issue_keys"
  by (simp add: issue_keys_def)

lemma keys_disjoint: "k \<in> set point_keys \<Longrightarrow> k \<notin> set issue_keys"
  using distinct_tracked by (auto simp: tracked_keys_def)

lemma added_key_issue: "''issueKeysAddedDuringSprint'' \<in> set issue_keys"
  by (simp add: issue_keys_def)

lemma point_keys_split: "point_keys = input_point_keys @ [''pointsAddedDuringSprintSum'']"
  by (simp add: point_keys_def input_point_keys_def)

lemma added_not_input: "''pointsAddedDuringSprintSum'' \<notin> set input_point_keys"
  by (simp add: input_point_keys_def)

lemma added_points_tracked: "''pointsAddedDuringSprintSum'' \<in> set tracked_keys"
  by (simp add: tracked_keys_def point_keys_def)

lemma added_points_not_issue: "''pointsAddedDuringSprintSum'' \<notin> set issue_keys"
  by (simp add: issue_keys_def)


subsection \<open>Rounding to 12 significant digits\<close>

lemma sig_exp_eq:
  assumes "10 powi n \<le> \<bar>x\<bar>" and "\<bar>x\<bar> < 10 powi (n + 1)"
  shows "sig_exp x = n"
proof -
  have "(0::real) < 10 powi n" by simp
  then have pos: "0 < \<bar>x\<bar>" using assms(1) by linarith
  have a: "(10::real) powr real_of_int n = 10 powi n"
    by (rule powr_real_of_int') simp_all
  have b: "(10::real) powr (real_of_int n + 1) = 10 powi (n + 1)"
    using powr_real_of_int'[of 10 "n + 1"] by simp
  have "\<lfloor>log 10 \<bar>x\<bar>\<rfloor> = n"
    using assms pos by (simp add: floor_log_eq_powr_iff a b)
  then show ?thesis unfolding sig_exp_def .
qed

lemma round_half_even_below:
  assumes "of_int n \<le> y" and "y < of_int n + 1 / 2"
  shows "round_half_even y = n"
proof -
  have "\<lfloor>y\<rfloor> = n" using assms by (intro floor_unique) auto
  then show ?thesis using assms(2) by (simp add: round_half_even_def)
qed

lemma round_half_even_of_int: "round_half_even (of_int n) = n"
  by (rule round_half_even_below) simp_all

lemma round12_digit:
  assumes "1 \<le> k" and "k < 10"
  shows "round12 (of_int k) = of_int k"
proof -
  have e: "sig_exp (of_int k) = 0"
    using assms by (intro sig_exp_eq) simp_all
  have "of_int k * (10::real) powi 11 = of_int (k * 10 ^ 11)" by simp
  then have "round_half_even (of_int k * 10 powi 11) = k * 10 ^ 11"
    using round_half_even_of_int[of "k * 10 ^ 11"] by simp
  then show ?thesis using assms by (simp add: round12_def e power_int_minus)
qed

lemma round12_small: "round12 0 = 0" "round12 2 = 2" "round12 3 = 3" "round12 5 = 5"
  using round12_digit[of 2] round12_digit[of 3] round12_digit[of 5]
  by (simp_all add: round12_def)

lemma round12_fraction: "round12 (1234567890123 / 10 ^ 13) = 123456789012 / 10 ^ 12"
proof -
  define x :: real where "x = 1234567890123 / 10 ^ 13"
  have nz: "x \<noteq> 0" unfolding x_def by simp
  have e: "sig_exp x = - 1"
    unfolding x_def by (rule sig_exp_eq) (simp_all add: power_int_minus)
  have m: "x * 10 powi 12 = 1234567890123 / 10"
    unfolding x_def by simp
  have r: "round_half_even (1234567890123 / 10) = 123456789012"
    by (rule round_half_even_below) simp_all
  have "round12 x = of_int (round_half_even (x * 10 powi 12)) * 10 powi (- 12)"
    using nz by (simp add: round12_def e)
  then have "round12 x = 123456789012 / 10 ^ 12"
    unfolding m r by (simp add: power_int_minus)
  then show ?thesis unfolding x_def .
qed

subsection \<open>One key, one loop over the keys\<close>

lemma put_stat_ok:
  assumes "tbl i = Some e" and "idx = 0 \<or> has_prev tbl l k"
  shows "put_stat idx l i k cur tbl =
           Inr (tbl(i \<mapsto> e\<lparr>stats := (stats e)(k \<mapsto> new_stat idx (prev_sum tbl l k) cur)\<rparr>))"
  using assms
  by (auto simp: put_stat_def new_stat_def prev_sum_def has_prev_def Let_def split: option.splits)

lemma stat_loop_ok:
  assumes "distinct ks" and "tbl i = Some e"
    and "\<forall>k\<in>set ks. cur k = Inr (v k)"
    and "idx = 0 \<or> (\<forall>k\<in>set ks. has_prev tbl l k)"
  shows "\<exists>e'. stat_loop cur idx l i ks tbl = Inr (tbl(i \<mapsto> e')) \<and> info e' = info e \<and>
           (\<forall>k. k \<notin> set ks \<longrightarrow> stats e' k = stats e k) \<and>
           (\<forall>k\<in>set ks. stats e' k = Some (new_stat idx (prev_sum tbl l k) (v k)))"
  using assms
proof (induction ks arbitrary: tbl e)
  case Nil
  then show ?case by (auto intro!: exI[of _ e])
next
  case (Cons k ks)
  let ?n = "new_stat idx (prev_sum tbl l k) (v k)"
  let ?e1 = "e\<lparr>stats := (stats e)(k \<mapsto> ?n)\<rparr>"
  let ?t1 = "tbl(i \<mapsto> ?e1)"
  have ck: "cur k = Inr (v k)" using Cons.prems(3) by simp
  have hp: "idx = 0 \<or> has_prev tbl l k" using Cons.prems(4) by auto
  have ps: "put_stat idx l i k (v k) tbl = Inr ?t1"
    by (rule put_stat_ok[OF Cons.prems(2) hp])
  have d: "distinct ks" "k \<notin> set ks" using Cons.prems(1) by auto
  have same: "\<And>k'. k' \<in> set ks \<Longrightarrow> prev_sum ?t1 l k' = prev_sum tbl l k' \<and> (has_prev tbl l k' \<longrightarrow> has_prev ?t1 l k')"
    using d(2) Cons.prems(2) by (auto simp: prev_sum_def has_prev_def)
  have hp1: "idx = 0 \<or> (\<forall>k'\<in>set ks. has_prev ?t1 l k')"
    using Cons.prems(4) same by auto
  have c1: "\<forall>k'\<in>set ks. cur k' = Inr (v k')" using Cons.prems(3) by simp
  have t1: "?t1 i = Some ?e1" by simp
  from Cons.IH[OF d(1) t1 c1 hp1]
  obtain e' where e': "stat_loop cur idx l i ks ?t1 = Inr (?t1(i \<mapsto> e'))" "info e' = info ?e1"
    "\<forall>k'. k' \<notin> set ks \<longrightarrow> stats e' k' = stats ?e1 k'"
    "\<forall>k'\<in>set ks. stats e' k' = Some (new_stat idx (prev_sum ?t1 l k') (v k'))"
    by blast
  have r: "stat_loop cur idx l i (k # ks) tbl = Inr (tbl(i \<mapsto> e'))"
    using ck ps e'(1) by simp
  have a: "info e' = info e" using e'(2) by simp
  have b: "\<forall>k'. k' \<notin> set (k # ks) \<longrightarrow> stats e' k' = stats e k'"
    using e'(3) by auto
  have c: "\<forall>k'\<in>set (k # ks). stats e' k' = Some (new_stat idx (prev_sum tbl l k') (v k'))"
    using e'(3,4) d(2) same by auto
  show ?case using r a b c by blast
qed

subsection \<open>The code reads the value of each field\<close>

lemma float_or_zero_points:
  "float_or_zero (deep_get i ''customfield_10002'') = issue_points i"
  by (simp add: float_or_zero_def deep_get_def issue_points_def split: option.splits)

lemma added_points_sum:
  "added_points acc added = acc + sum_list (map issue_points added)"
  by (induction added arbitrary: acc) (simp_all add: float_or_zero_points)



lemma wf_added:
  assumes "well_formed s"
  shows "\<exists>added. issue_lists s ''issueKeysAddedDuringSprint'' = Some added"
  using assms added_key_issue by (auto simp: well_formed_def list_all_iff)

lemma wf_input_text:
  assumes "well_formed s" and "k \<in> set input_point_keys"
  shows "\<exists>t. estimate_sums s k = Some (Some t) \<and> null_or_number t"
proof -
  have c: "case estimate_sums s k of None \<Rightarrow> False | Some None \<Rightarrow> False
          | Some (Some t) \<Rightarrow> null_or_number t"
    using assms by (simp add: well_formed_def list_all_iff)
  show ?thesis
  proof (cases "estimate_sums s k")
    case None
    then show ?thesis using c by simp
  next
    case (Some o1)
    then show ?thesis using c by (cases o1) simp_all
  qed
qed

lemma input_point_not_issue:
  assumes "k \<in> set input_point_keys"
  shows "k \<notin> set issue_keys" and "k \<noteq> ''pointsAddedDuringSprintSum''"
  using assms by (auto simp: input_point_keys_def issue_keys_def)

lemma wf_input_point:
  assumes "well_formed s" and "k \<in> set input_point_keys"
  shows "point_current (contents_with_added s) k = Inr (read_value s k)"
proof -
  from wf_input_text[OF assms]
  obtain t where t: "estimate_sums s k = Some (Some t)" "null_or_number t" by blast
  note nk = input_point_not_issue[OF assms(2)]
  have c: "contents_with_added s k = estimate_sums s k"
    using nk(2) by (simp add: contents_with_added_def split: option.splits)
  have v: "read_value s k = (case t of NumText r \<Rightarrow> r | _ \<Rightarrow> 0)"
    using nk t(1) by (cases t) (simp_all add: read_value_def snapshot_value_def)
  show ?thesis
    using t(2) unfolding v by (cases t) (simp_all add: point_current_def c t(1))
qed

lemma added_current:
  assumes "issue_lists s ''issueKeysAddedDuringSprint'' = Some added"
  shows "point_current (contents_with_added s) ''pointsAddedDuringSprintSum''
           = Inr (read_value s ''pointsAddedDuringSprintSum'')"
  using assms added_points_not_issue
  by (simp add: contents_with_added_def point_current_def py_str_def read_value_def
      snapshot_value_def added_points_sum)

lemma wf_point:
  assumes "well_formed s" and "k \<in> set point_keys"
  shows "point_current (contents_with_added s) k = Inr (read_value s k)"
proof (cases "k \<in> set input_point_keys")
  case True
  then show ?thesis by (rule wf_input_point[OF assms(1)])
next
  case False
  then have k: "k = ''pointsAddedDuringSprintSum''" using assms(2) by (simp add: point_keys_split)
  from wf_added[OF assms(1)] obtain added
    where "issue_lists s ''issueKeysAddedDuringSprint'' = Some added" by blast
  then show ?thesis unfolding k by (rule added_current)
qed

lemma wf_issue:
  assumes "well_formed s" and "k \<in> set issue_keys"
  shows "issue_current (issue_lists s) k = Inr (read_value s k)"
proof -
  have "issue_lists s k \<noteq> None" using assms by (auto simp: well_formed_def list_all_iff)
  then obtain l where l: "issue_lists s k = Some l" by auto
  have "k \<noteq> ''pointsAddedDuringSprintSum''" using assms(2) added_points_not_issue by auto
  then show ?thesis
    using assms(2) l by (simp add: issue_current_def read_value_def snapshot_value_def)
qed



subsection \<open>One sprint, and the loop over the sprints\<close>

lemma aggregate_one_ok:
  assumes wf: "well_formed s"
    and pre: "idx = 0 \<or> (\<forall>k\<in>set tracked_keys. has_prev (by_sprint agg) l k)"
  shows "\<exists>e'. aggregate_one idx l s agg =
            Inr \<lparr>asc_order = asc_order agg @ [sprint_id (sprint s)],
                 by_sprint = (by_sprint agg)(sprint_id (sprint s) \<mapsto> e')\<rparr> \<and>
           (\<forall>k\<in>set tracked_keys.
              stats e' k = Some (new_stat idx (prev_sum (by_sprint agg) l k) (read_value s k)))"
proof -
  let ?i = "sprint_id (sprint s)"
  let ?tbl = "(if by_sprint agg ?i = None
                 then (by_sprint agg)(?i \<mapsto> \<lparr>info = sprint s, stats = Map.empty\<rparr>)
                 else by_sprint agg)"
  obtain added where added: "issue_lists s ''issueKeysAddedDuringSprint'' = Some added"
    using wf_added[OF wf] by blast
  have cw: "contents_with_added s =
      (estimate_sums s)(''pointsAddedDuringSprintSum'' \<mapsto> Some (py_str (added_points 0 added)))"
    by (simp add: contents_with_added_def added)
  obtain e0 where e0: "?tbl ?i = Some e0" by (cases "by_sprint agg ?i") auto
  have upd: "\<And>x. ?tbl(?i \<mapsto> x) = (by_sprint agg)(?i \<mapsto> x)" by auto
  have keep: "\<And>k. has_prev (by_sprint agg) l k \<Longrightarrow>
                 has_prev ?tbl l k \<and> prev_sum ?tbl l k = prev_sum (by_sprint agg) l k"
    by (auto simp: has_prev_def prev_sum_def split: option.splits)
  have pre0: "idx = 0 \<or> (\<forall>k\<in>set tracked_keys. has_prev ?tbl l k)"
    using pre keep by blast
  have ps0: "idx \<noteq> 0 \<Longrightarrow> k \<in> set tracked_keys \<Longrightarrow> prev_sum ?tbl l k = prev_sum (by_sprint agg) l k" for k
    using pre keep by blast
  have p1: "\<forall>k\<in>set point_keys. point_current (contents_with_added s) k = Inr (read_value s k)"
    using wf_point[OF wf] by blast
  have hp1: "idx = 0 \<or> (\<forall>k\<in>set point_keys. has_prev ?tbl l k)"
    using pre0 by (auto simp: tracked_keys_def)
  from stat_loop_ok[OF distinct_point e0 p1 hp1]
  obtain e1 where e1: "stat_loop (point_current (contents_with_added s)) idx l ?i point_keys ?tbl
                         = Inr (?tbl(?i \<mapsto> e1))"
    "\<forall>k. k \<notin> set point_keys \<longrightarrow> stats e1 k = stats e0 k"
    "\<forall>k\<in>set point_keys. stats e1 k = Some (new_stat idx (prev_sum ?tbl l k) (read_value s k))"
    by blast
  let ?t1 = "?tbl(?i \<mapsto> e1)"
  have t1: "?t1 ?i = Some e1" by simp
  have p2: "\<forall>k\<in>set issue_keys. issue_current (issue_lists s) k = Inr (read_value s k)"
    using wf_issue[OF wf] by blast
  have keep1: "\<And>k. k \<in> set issue_keys \<Longrightarrow>
       prev_sum ?t1 l k = prev_sum ?tbl l k \<and> (has_prev ?tbl l k \<longrightarrow> has_prev ?t1 l k)"
  proof -
    fix k assume k: "k \<in> set issue_keys"
    then have "k \<notin> set point_keys" using keys_disjoint by blast
    then have "stats e1 k = stats e0 k" using e1(2) by simp
    then show "prev_sum ?t1 l k = prev_sum ?tbl l k \<and> (has_prev ?tbl l k \<longrightarrow> has_prev ?t1 l k)"
      using e0 by (auto simp: prev_sum_def has_prev_def)
  qed
  have hp2: "idx = 0 \<or> (\<forall>k\<in>set issue_keys. has_prev ?t1 l k)"
    using pre0 keep1 by (auto simp: tracked_keys_def)
  from stat_loop_ok[OF distinct_issue t1 p2 hp2]
  obtain e2 where e2: "stat_loop (issue_current (issue_lists s)) idx l ?i issue_keys ?t1
                         = Inr (?t1(?i \<mapsto> e2))"
    "\<forall>k. k \<notin> set issue_keys \<longrightarrow> stats e2 k = stats e1 k"
    "\<forall>k\<in>set issue_keys. stats e2 k = Some (new_stat idx (prev_sum ?t1 l k) (read_value s k))"
    by blast
  have res: "aggregate_one idx l s agg =
            Inr \<lparr>asc_order = asc_order agg @ [?i], by_sprint = (by_sprint agg)(?i \<mapsto> e2)\<rparr>"
    unfolding aggregate_one_def Let_def added option.case cw[symmetric] e1(1) sum.case e2(1)
    by (simp add: upd)
  have st: "\<forall>k\<in>set tracked_keys.
              stats e2 k = Some (new_stat idx (prev_sum (by_sprint agg) l k) (read_value s k))"
  proof
    fix k assume k: "k \<in> set tracked_keys"
    have z: "idx = 0 \<Longrightarrow> new_stat idx a c = new_stat idx b c" for a b c
      by (simp add: new_stat_def)
    show "stats e2 k = Some (new_stat idx (prev_sum (by_sprint agg) l k) (read_value s k))"
    proof (cases "k \<in> set issue_keys")
      case True
      then have "stats e2 k = Some (new_stat idx (prev_sum ?t1 l k) (read_value s k))"
        using e2(3) by blast
      moreover have "prev_sum ?t1 l k = prev_sum ?tbl l k" using keep1[OF True] by blast
      ultimately show ?thesis using ps0[OF _ k] z by (cases "idx = 0") auto
    next
      case False
      then have kp: "k \<in> set point_keys" using k by (simp add: tracked_keys_def)
      have "stats e2 k = stats e1 k" using e2(2) False by blast
      then have "stats e2 k = Some (new_stat idx (prev_sum ?tbl l k) (read_value s k))"
        using e1(3) kp by simp
      then show ?thesis using ps0[OF _ k] z by (cases "idx = 0") auto
    qed
  qed
  show ?thesis using res st by blast
qed

lemma running_sum_stat_at:
  assumes "j < length P"
  shows "running_sum (stat_at P j k) = total (take (Suc j) P) k"
  using assms
  by (simp add: stat_at_def new_stat_def total_def take_Suc_conv_app_nth)

lemma stat_at_append:
  assumes "j < length P"
  shows "stat_at (P @ xs) j k = stat_at P j k"
  using assms by (simp add: stat_at_def nth_append)

lemma last_occurrence_append:
  assumes "j < length P" and "last_occurrence (P @ [s]) j"
  shows "last_occurrence P j \<and> sprint_id (sprint (P ! j)) \<noteq> sprint_id (sprint s)"
  using assms by (auto simp: last_occurrence_def ids_def nth_append)

lemma agg_inv_step:
  assumes inv: "agg_inv P l agg" and wf: "well_formed s"
  shows "\<exists>agg'. aggregate_one (length P) l s agg = Inr agg' \<and>
           agg_inv (P @ [s]) (sprint_id (sprint s)) agg'"
proof -
  let ?n = "length P"
  let ?i = "sprint_id (sprint s)"
  have prev: "P \<noteq> [] \<Longrightarrow> k \<in> set tracked_keys \<Longrightarrow>
                has_prev (by_sprint agg) l k \<and> prev_sum (by_sprint agg) l k = total P k" for k
  proof -
    assume ne: "P \<noteq> []" and k: "k \<in> set tracked_keys"
    let ?j = "?n - 1"
    have j: "?j < ?n" using ne by simp
    have lo: "last_occurrence P ?j" using ne by (simp add: last_occurrence_def ids_def)
    have l: "l = sprint_id (sprint (P ! ?j))"
      using inv ne by (simp add: agg_inv_def last_conv_nth)
    from inv j lo obtain e where e: "by_sprint agg (sprint_id (sprint (P ! ?j))) = Some e"
      "\<forall>k\<in>set tracked_keys. stats e k = Some (stat_at P ?j k)"
      unfolding agg_inv_def by blast
    have "stats e k = Some (stat_at P ?j k)" using e(2) k by blast
    moreover have "running_sum (stat_at P ?j k) = total P k"
      using running_sum_stat_at[OF j, of k] ne by simp
    ultimately show "has_prev (by_sprint agg) l k \<and> prev_sum (by_sprint agg) l k = total P k"
      using e(1) l by (simp add: has_prev_def prev_sum_def)
  qed
  have pre: "?n = 0 \<or> (\<forall>k\<in>set tracked_keys. has_prev (by_sprint agg) l k)"
    using prev by (cases "P = []") auto
  from aggregate_one_ok[OF wf pre]
  obtain e' where e': "aggregate_one ?n l s agg =
            Inr \<lparr>asc_order = asc_order agg @ [?i], by_sprint = (by_sprint agg)(?i \<mapsto> e')\<rparr>"
    "\<forall>k\<in>set tracked_keys. stats e' k = Some (new_stat ?n (prev_sum (by_sprint agg) l k) (read_value s k))"
    by blast
  let ?agg' = "\<lparr>asc_order = asc_order agg @ [?i], by_sprint = (by_sprint agg)(?i \<mapsto> e')\<rparr>"
  have new: "\<forall>k\<in>set tracked_keys. stats e' k = Some (stat_at (P @ [s]) ?n k)"
  proof
    fix k assume k: "k \<in> set tracked_keys"
    have "new_stat ?n (prev_sum (by_sprint agg) l k) (read_value s k)
            = new_stat ?n (total P k) (read_value s k)"
    proof (cases "P = []")
      case True
      then show ?thesis by (simp add: new_stat_def)
    next
      case False
      then show ?thesis using prev[OF False k] by simp
    qed
    then show "stats e' k = Some (stat_at (P @ [s]) ?n k)"
      using e'(2) k by (simp add: stat_at_def)
  qed
  have a: "asc_order ?agg' = ids (P @ [s])"
    using inv by (simp add: agg_inv_def ids_def)
  have c: "\<forall>j<length (P @ [s]). last_occurrence (P @ [s]) j \<longrightarrow>
         (\<exists>e. by_sprint ?agg' (sprint_id (sprint ((P @ [s]) ! j))) = Some e \<and>
              (\<forall>k\<in>set tracked_keys. stats e k = Some (stat_at (P @ [s]) j k)))"
  proof (intro allI impI)
    fix j assume j: "j < length (P @ [s])" and lo: "last_occurrence (P @ [s]) j"
    show "\<exists>e. by_sprint ?agg' (sprint_id (sprint ((P @ [s]) ! j))) = Some e \<and>
              (\<forall>k\<in>set tracked_keys. stats e k = Some (stat_at (P @ [s]) j k))"
    proof (cases "j = ?n")
      case True
      then show ?thesis using new by simp
    next
      case False
      then have jl: "j < ?n" using j by simp
      from last_occurrence_append[OF jl lo]
      have lo': "last_occurrence P j" and ne: "sprint_id (sprint (P ! j)) \<noteq> ?i" by auto
      from inv jl lo' obtain e where e: "by_sprint agg (sprint_id (sprint (P ! j))) = Some e"
        "\<forall>k\<in>set tracked_keys. stats e k = Some (stat_at P j k)"
        unfolding agg_inv_def by blast
      show ?thesis using e ne jl by (simp add: nth_append stat_at_append)
    qed
  qed
  have "agg_inv (P @ [s]) ?i ?agg'"
    unfolding agg_inv_def using a c by simp
  then show ?thesis using e'(1) by blast
qed

lemma aggregate_loop_inv:
  assumes "list_all well_formed xs" and "agg_inv P l agg"
  shows "\<exists>agg' l'. aggregate_loop (length P) l xs agg = Inr agg' \<and> agg_inv (P @ xs) l' agg'"
  using assms
proof (induction xs arbitrary: P l agg)
  case Nil
  then show ?case by auto
next
  case (Cons s xs)
  then have wf: "well_formed s" and wfs: "list_all well_formed xs" by simp_all
  from agg_inv_step[OF Cons.prems(2) wf]
  obtain agg1 where a1: "aggregate_one (length P) l s agg = Inr agg1"
    "agg_inv (P @ [s]) (sprint_id (sprint s)) agg1" by blast
  from Cons.IH[OF wfs a1(2)]
  obtain agg' l' where r: "aggregate_loop (length (P @ [s])) (sprint_id (sprint s)) xs agg1 = Inr agg'"
    "agg_inv ((P @ [s]) @ xs) l' agg'" by blast
  show ?case using a1(1) r by auto
qed

lemma total_take_sum:
  assumes "n \<le> length P"
  shows "total (take n P) k = (\<Sum>j<n. read_value (P ! j) k)"
  using assms
proof (induction n)
  case 0
  then show ?case by (simp add: total_def)
next
  case (Suc n)
  then show ?case by (simp add: total_def take_Suc_conv_app_nth)
qed

lemma stat_at_sum:
  assumes "i < length P"
  shows "stat_at P i k =
           \<lparr>actual = read_value (P ! i) k,
            running_avg = (\<Sum>j\<le>i. read_value (P ! j) k) / real (i + 1),
            running_sum = (\<Sum>j\<le>i. read_value (P ! j) k)\<rparr>"
proof -
  have t: "total (take i P) k = (\<Sum>j<i. read_value (P ! j) k)"
    using assms by (simp add: total_take_sum)
  have s: "(\<Sum>j\<le>i. read_value (P ! j) k) = (\<Sum>j<i. read_value (P ! j) k) + read_value (P ! i) k"
    by (simp add: lessThan_Suc_atMost[symmetric])
  show ?thesis
    by (cases "i = 0") (simp_all add: stat_at_def new_stat_def t s)
qed

lemma aggregate_correct:
  assumes wf: "list_all well_formed sprint_data"
  shows "\<exists>agg. aggregate_sprint_history_data sprint_data = Inr agg \<and>
           asc_order agg = ids (rev sprint_data) \<and>
           (\<forall>i<length sprint_data. last_occurrence (rev sprint_data) i \<longrightarrow>
              (\<exists>e. by_sprint agg (sprint_id (sprint (rev sprint_data ! i))) = Some e \<and>
                 (\<forall>k\<in>set tracked_keys. stats e k = Some (stat_at (rev sprint_data) i k))))"
proof -
  have i0: "agg_inv [] 0 \<lparr>asc_order = [], by_sprint = Map.empty\<rparr>"
    by (simp add: agg_inv_def ids_def)
  have w: "list_all well_formed (rev sprint_data)" using wf by (simp add: list_all_iff)
  from aggregate_loop_inv[OF w i0]
  obtain agg' l' where r: "aggregate_loop 0 0 (rev sprint_data) \<lparr>asc_order = [], by_sprint = Map.empty\<rparr> = Inr agg'"
    "agg_inv (rev sprint_data) l' agg'" by auto
  show ?thesis
    using r unfolding aggregate_sprint_history_data_def agg_inv_def by auto
qed

lemma aggregate_at:
  assumes "list_all well_formed sprint_data"
    and "i < length sprint_data"
    and "last_occurrence (rev sprint_data) i"
  shows "\<exists>agg e. aggregate_sprint_history_data sprint_data = Inr agg \<and>
           asc_order agg = ids (rev sprint_data) \<and>
           by_sprint agg (sprint_id (sprint (rev sprint_data ! i))) = Some e \<and>
           (\<forall>k\<in>set tracked_keys. stats e k =
              Some \<lparr>actual = read_value (rev sprint_data ! i) k,
                    running_avg = (\<Sum>j\<le>i. read_value (rev sprint_data ! j) k) / real (i + 1),
                    running_sum = (\<Sum>j\<le>i. read_value (rev sprint_data ! j) k)\<rparr>)"
proof -
  let ?P = "rev sprint_data"
  have il: "i < length ?P" using assms(2) by simp
  from aggregate_correct[OF assms(1)] assms(2,3)
  obtain agg e where a: "aggregate_sprint_history_data sprint_data = Inr agg"
    "asc_order agg = ids ?P"
    "by_sprint agg (sprint_id (sprint (?P ! i))) = Some e"
    "\<forall>k\<in>set tracked_keys. stats e k = Some (stat_at ?P i k)"
    by blast
  show ?thesis using a by (auto simp: stat_at_sum[OF il])
qed

lemma distinct_ids_last_occurrence:
  assumes "distinct (ids P)" and "j < length P"
  shows "last_occurrence P j"
proof -
  have "ids P = take (Suc j) (ids P) @ drop (Suc j) (ids P)" by simp
  then have d: "set (take (Suc j) (ids P)) \<inter> set (drop (Suc j) (ids P)) = {}"
    using assms(1) by (metis distinct_append)
  have "ids P ! j \<in> set (take (Suc j) (ids P))"
    using assms(2) by (simp add: ids_def take_Suc_conv_app_nth)
  then have "ids P ! j \<notin> set (drop (Suc j) (ids P))" using d by blast
  then show ?thesis using assms(2) by (simp add: last_occurrence_def ids_def drop_map)
qed

subsection \<open>The example snapshots\<close>

lemmas example_defs = example_sprint_def sprint1_def sprint2_def sprint3_def
  sprint7_earlier_def sprint7_later_def sprint_with_fraction_def
  pointed_def null_pointed_def unpointed_def bare_issue_def

lemma example_well_formed:
  "null_or_number c \<Longrightarrow> null_or_number p \<Longrightarrow> well_formed (example_sprint i c p f a)"
  by (simp add: well_formed_def example_sprint_def input_point_keys_def issue_keys_def)

lemma examples_well_formed:
  "well_formed sprint1" "well_formed sprint2" "well_formed sprint3"
  "well_formed sprint7_earlier" "well_formed sprint7_later" "well_formed sprint_with_fraction"
  by (simp_all add: sprint1_def sprint2_def sprint3_def sprint7_earlier_def sprint7_later_def
      sprint_with_fraction_def example_well_formed)

lemma example_ids:
  "sprint_id (sprint sprint1) = 1" "sprint_id (sprint sprint2) = 2" "sprint_id (sprint sprint3) = 3"
  "sprint_id (sprint sprint7_earlier) = 7" "sprint_id (sprint sprint7_later) = 7"
  "sprint_id (sprint sprint_with_fraction) = 9"
  by (simp_all add: example_defs)

lemma example_completed_points:
  "read_value sprint1 ''completedIssuesEstimateSum'' = 10"
  "read_value sprint2 ''completedIssuesEstimateSum'' = 20"
  "read_value sprint3 ''completedIssuesEstimateSum'' = 30"
  "read_value sprint7_earlier ''completedIssuesEstimateSum'' = 10"
  "read_value sprint7_later ''completedIssuesEstimateSum'' = 20"
  by (simp_all add: read_value_def snapshot_value_def issue_keys_def example_defs)


lemma example_completed_issues:
  "read_value sprint1 ''completedIssues'' = 0"
  "read_value sprint2 ''completedIssues'' = 1"
  "read_value sprint3 ''completedIssues'' = 2"
  by (simp_all add: read_value_def snapshot_value_def issue_keys_def example_defs)

lemma example_added_points:
  "read_value sprint1 ''pointsAddedDuringSprintSum'' = 2"
  "read_value sprint2 ''pointsAddedDuringSprintSum'' = 3"
  "read_value sprint3 ''pointsAddedDuringSprintSum'' = 5"
  by (simp_all add: read_value_def snapshot_value_def issue_keys_def example_defs
      issue_points_def round12_small)

lemma example_sum_sets: "{..0::nat} = {0}" "{..1::nat} = {0, 1}" "{..2::nat} = {0, 1, 2}"
  by auto

lemma example_keys_tracked:
  "''completedIssuesEstimateSum'' \<in> set tracked_keys"
  "''puntedIssuesEstimateSum'' \<in> set tracked_keys"
  "''completedIssues'' \<in> set tracked_keys"
  by (simp_all add: tracked_keys_def point_keys_def issue_keys_def)

subsection \<open>Running sums and averages\<close>

text \<open>
  Claim C2, as the code has it. For a list of well-formed snapshots given in descending
  order, the aggregator succeeds and \<open>asc_order\<close> is the sprint ids of the reversed
  list. For every tracked key and every index \<open>i\<close> of the reversed list whose sprint id
  does not come again later in the list (every index, when the sprint ids are
  distinct), the returned aggregate holds under that sprint id \<open>actual\<close> the value of
  the field at \<open>i\<close>, \<open>running_sum\<close> the sum of the values at indices \<open>0..i\<close> and
  \<open>running_avg = running_sum / (i + 1)\<close>. The value of a field is read off the
  snapshot (\<open>snapshot_value\<close>); for the added points it is their sum rounded to 12
  significant digits (\<open>read_value\<close>).
\<close>

theorem aggregate_running_sums:
  assumes "list_all well_formed sprint_data"
    and "i < length sprint_data"
    and "last_occurrence (rev sprint_data) i"
    and "key \<in> set tracked_keys"
  shows "\<exists>agg e. aggregate_sprint_history_data sprint_data = Inr agg \<and>
           asc_order agg = ids (rev sprint_data) \<and>
           by_sprint agg (sprint_id (sprint (rev sprint_data ! i))) = Some e \<and>
           stats e key =
             Some \<lparr>actual = read_value (rev sprint_data ! i) key,
                   running_avg = (\<Sum>j\<le>i. read_value (rev sprint_data ! j) key) / real (i + 1),
                   running_sum = (\<Sum>j\<le>i. read_value (rev sprint_data ! j) key)\<rparr>"
  using aggregate_at[OF assms(1,2,3)] assms(4) by blast

text \<open>
  C2 on the example of the spec: sprints 3, 2, 1 given in that order with completed points
  30, 20, 10 give running sums 10, 30, 60 and running averages 10, 15, 20. The sprints
  have 2, 1 and 0 completed issues, and issues added with 5, 3 and 2 points next to
  issues without points.
\<close>

theorem aggregate_running_sums_witness:
  "\<exists>agg e0 e1 e2.
     aggregate_sprint_history_data [sprint3, sprint2, sprint1] = Inr agg \<and>
     asc_order agg = [1, 2, 3] \<and>
     by_sprint agg 1 = Some e0 \<and>
     stats e0 ''completedIssuesEstimateSum'' = Some \<lparr>actual = 10, running_avg = 10, running_sum = 10\<rparr> \<and>
     by_sprint agg 2 = Some e1 \<and>
     stats e1 ''completedIssuesEstimateSum'' = Some \<lparr>actual = 20, running_avg = 15, running_sum = 30\<rparr> \<and>
     stats e1 ''pointsAddedDuringSprintSum'' = Some \<lparr>actual = 3, running_avg = 5 / 2, running_sum = 5\<rparr> \<and>
     by_sprint agg 3 = Some e2 \<and>
     stats e2 ''completedIssuesEstimateSum'' = Some \<lparr>actual = 30, running_avg = 20, running_sum = 60\<rparr> \<and>
     stats e2 ''completedIssues'' = Some \<lparr>actual = 2, running_avg = 1, running_sum = 3\<rparr> \<and>
     stats e2 ''pointsAddedDuringSprintSum'' = Some \<lparr>actual = 5, running_avg = 10 / 3, running_sum = 10\<rparr>"
proof -
  let ?sd = "[sprint3, sprint2, sprint1]"
  let ?k = "''completedIssuesEstimateSum''"
  have wf: "list_all well_formed ?sd" by (simp add: examples_well_formed)
  have lo: "last_occurrence (rev ?sd) 0" "last_occurrence (rev ?sd) 1" "last_occurrence (rev ?sd) 2"
    by (simp_all add: last_occurrence_def ids_def example_ids)
  note ev = example_ids example_completed_points example_completed_issues example_added_points
    ids_def example_sum_sets
  from aggregate_running_sums[OF wf _ lo(1) example_keys_tracked(1)]
  obtain agg e0 where a0: "aggregate_sprint_history_data ?sd = Inr agg" "asc_order agg = [1, 2, 3]"
    "by_sprint agg 1 = Some e0"
    "stats e0 ?k = Some \<lparr>actual = 10, running_avg = 10, running_sum = 10\<rparr>"
    by (auto simp: ev)
  from aggregate_running_sums[OF wf _ lo(2) example_keys_tracked(1)] a0(1)
  obtain e1 where a1: "by_sprint agg 2 = Some e1"
    "stats e1 ?k = Some \<lparr>actual = 20, running_avg = 15, running_sum = 30\<rparr>"
    by (auto simp: ev)
  from aggregate_running_sums[OF wf _ lo(2) added_points_tracked] a0(1) a1(1)
  have a1p: "stats e1 ''pointsAddedDuringSprintSum'' = Some \<lparr>actual = 3, running_avg = 5 / 2, running_sum = 5\<rparr>"
    by (auto simp: ev)
  from aggregate_running_sums[OF wf _ lo(3) example_keys_tracked(1)] a0(1)
  obtain e2 where a2: "by_sprint agg 3 = Some e2"
    "stats e2 ?k = Some \<lparr>actual = 30, running_avg = 20, running_sum = 60\<rparr>"
    by (auto simp: ev)
  from aggregate_running_sums[OF wf _ lo(3) example_keys_tracked(3)] a0(1) a2(1)
  have a2i: "stats e2 ''completedIssues'' = Some \<lparr>actual = 2, running_avg = 1, running_sum = 3\<rparr>"
    by (auto simp: ev)
  from aggregate_running_sums[OF wf _ lo(3) added_points_tracked] a0(1) a2(1)
  have a2p: "stats e2 ''pointsAddedDuringSprintSum'' = Some \<lparr>actual = 5, running_avg = 10 / 3, running_sum = 10\<rparr>"
    by (auto simp: ev)
  show ?thesis using a0 a1 a1p a2 a2i a2p by blast
qed

text \<open>
  C2 as stated fails twice. Given two snapshots of sprint 7, with completed points 10
  and then 20, the aggregate has one entry for sprint 7, holding the triple of the later
  snapshot: the triple 10, 10, 10 of ascending index 0 is not emitted. And added points
  of 0.1234567890123 are aggregated as 0.123456789012: \<open>actual\<close> is not the value of
  the field.
\<close>

theorem aggregate_running_sums_counterexample:
  "(\<exists>agg e. aggregate_sprint_history_data [sprint7_later, sprint7_earlier] = Inr agg \<and>
      asc_order agg = [7, 7] \<and>
      read_value sprint7_earlier ''completedIssuesEstimateSum'' = 10 \<and>
      by_sprint agg 7 = Some e \<and>
      stats e ''completedIssuesEstimateSum'' = Some \<lparr>actual = 20, running_avg = 15, running_sum = 30\<rparr>) \<and>
   (\<exists>agg e st. aggregate_sprint_history_data [sprint_with_fraction] = Inr agg \<and>
      by_sprint agg 9 = Some e \<and>
      stats e ''pointsAddedDuringSprintSum'' = Some st \<and>
      snapshot_value sprint_with_fraction ''pointsAddedDuringSprintSum'' = 1234567890123 / 10 ^ 13 \<and>
      actual st = 123456789012 / 10 ^ 12 \<and>
      actual st \<noteq> snapshot_value sprint_with_fraction ''pointsAddedDuringSprintSum'')"
proof -
  let ?sd = "[sprint7_later, sprint7_earlier]"
  have wf: "list_all well_formed ?sd" by (simp add: examples_well_formed)
  have lo: "last_occurrence (rev ?sd) 1" by (simp add: last_occurrence_def ids_def)
  from aggregate_at[OF wf _ lo]
  obtain agg e where a: "aggregate_sprint_history_data ?sd = Inr agg" "asc_order agg = [7, 7]"
    "by_sprint agg 7 = Some e"
    "\<forall>k\<in>set tracked_keys. stats e k =
       Some \<lparr>actual = read_value sprint7_later k,
             running_avg = (\<Sum>j\<le>1. read_value (rev ?sd ! j) k) / 2,
             running_sum = (\<Sum>j\<le>1. read_value (rev ?sd ! j) k)\<rparr>"
    by (auto simp: example_ids ids_def)
  have "stats e ''completedIssuesEstimateSum'' = Some \<lparr>actual = 20, running_avg = 15, running_sum = 30\<rparr>"
    using a(4) example_keys_tracked(1)
    by (auto simp: example_completed_points example_sum_sets)
  then have first: "\<exists>agg e. aggregate_sprint_history_data ?sd = Inr agg \<and>
      asc_order agg = [7, 7] \<and>
      read_value sprint7_earlier ''completedIssuesEstimateSum'' = 10 \<and>
      by_sprint agg 7 = Some e \<and>
      stats e ''completedIssuesEstimateSum'' = Some \<lparr>actual = 20, running_avg = 15, running_sum = 30\<rparr>"
    using a(1,2,3) example_completed_points(4) by blast
  let ?sf = "[sprint_with_fraction]"
  have wf2: "list_all well_formed ?sf" by (simp add: examples_well_formed)
  have lo2: "last_occurrence (rev ?sf) 0" by (simp add: last_occurrence_def ids_def)
  have v: "snapshot_value sprint_with_fraction ''pointsAddedDuringSprintSum'' = 1234567890123 / 10 ^ 13"
    by (simp add: snapshot_value_def issue_keys_def example_defs issue_points_def)
  have r: "read_value sprint_with_fraction ''pointsAddedDuringSprintSum'' = 123456789012 / 10 ^ 12"
    unfolding read_value_def v using round12_fraction by simp
  from aggregate_at[OF wf2 _ lo2]
  obtain agg2 e2 where b: "aggregate_sprint_history_data ?sf = Inr agg2"
    "by_sprint agg2 9 = Some e2"
    "\<forall>k\<in>set tracked_keys. stats e2 k =
       Some \<lparr>actual = read_value sprint_with_fraction k,
             running_avg = (\<Sum>j\<le>0. read_value (rev ?sf ! j) k) / 1,
             running_sum = (\<Sum>j\<le>0. read_value (rev ?sf ! j) k)\<rparr>"
    by (auto simp: example_ids ids_def)
  from b(3) added_points_tracked obtain st
    where st: "stats e2 ''pointsAddedDuringSprintSum'' = Some st"
      "actual st = read_value sprint_with_fraction ''pointsAddedDuringSprintSum''"
    by auto
  have ne: "actual st \<noteq> snapshot_value sprint_with_fraction ''pointsAddedDuringSprintSum''"
    unfolding st(2) r v by simp
  have second: "\<exists>agg e st. aggregate_sprint_history_data ?sf = Inr agg \<and>
      by_sprint agg 9 = Some e \<and>
      stats e ''pointsAddedDuringSprintSum'' = Some st \<and>
      snapshot_value sprint_with_fraction ''pointsAddedDuringSprintSum'' = 1234567890123 / 10 ^ 13 \<and>
      actual st = 123456789012 / 10 ^ 12 \<and>
      actual st \<noteq> snapshot_value sprint_with_fraction ''pointsAddedDuringSprintSum''"
    using b(1,2) st v r ne by auto
  show ?thesis using first second by (rule conjI)
qed

subsection \<open>Null and absent fields\<close>




lemma none_text_raises:
  "aggregate_sprint_history_data [sprint_with_none_text 1] = Inl TypeError"
  by (simp add: aggregate_sprint_history_data_def aggregate_one_def Let_def
      sprint_with_none_text_def example_sprint_def point_keys_def point_current_def)

end
